theory Spec2Isabelle
  imports Complex_Main "HOL-Library.AList"
begin

section \<open>Grid model (logic/grid.js)\<close>

text \<open>
  The four directions are the static constants \<open>Grid.NW = 0\<close>, \<open>Grid.NE = 1\<close>,
  \<open>Grid.SW = 2\<close>, \<open>Grid.SE = 3\<close>; the enumeration is modelled as a datatype whose
  constructors are listed in that order.
\<close>

datatype direction = NW | NE | SW | SE

datatype lineType = Horizontal | Vertical

text \<open>
  A grid line id is the template string \<open>`${type}_${row}_${col}`\<close> with a one-character
  type tag. The string is kept as the triple of its three components, which is what
  \<open>parseGridLineId\<close> recovers from it by splitting at the underscores.
\<close>

type_synonym lineId = "char \<times> nat \<times> nat"

definition generateGridLineId :: "char \<Rightarrow> nat \<Rightarrow> nat \<Rightarrow> lineId" where
  "generateGridLineId t r c = (t, r, c)"

definition parseGridLineId :: "lineId \<Rightarrow> char \<times> nat \<times> nat" where
  "parseGridLineId i = (fst i, fst (snd i), snd (snd i))"

record gridLine =
  line_id :: lineId
  line_type :: lineType
  row :: nat
  col :: nat
  isMirror :: bool
  connections :: "direction \<Rightarrow> lineId option"

text \<open>
  \<open>gridLines\<close> is a JavaScript \<open>Map\<close>, iterated in insertion order: an association list
  whose \<open>Map.set\<close> is \<open>AList.update\<close> (replace in place, or append a new key).
  \<open>usedDirections\<close> is a \<open>Map\<close> from ids to \<open>Set\<close>s that is only ever looked up by key.
\<close>

record grid =
  rows :: nat
  cols :: nat
  gridLines :: "(lineId \<times> gridLine) list"
  usedDirections :: "lineId \<rightharpoonup> direction set"

definition newGridLine :: "lineId \<Rightarrow> lineType \<Rightarrow> nat \<Rightarrow> nat \<Rightarrow> gridLine" where
  "newGridLine i t r c =
     \<lparr>line_id = i, line_type = t, row = r, col = c, isMirror = False,
      connections = (\<lambda>d. None)\<rparr>"

definition setGridLine :: "lineId \<Rightarrow> gridLine \<Rightarrow> grid \<Rightarrow> grid" where
  "setGridLine i l g = g\<lparr>gridLines := AList.update i l (gridLines g)\<rparr>"

definition initializeGridLines :: "grid \<Rightarrow> grid" where
  "initializeGridLines g =
     (let g1 = fold (\<lambda>r. fold (\<lambda>c g'.
                  let i = generateGridLineId CHR ''h'' r c
                  in setGridLine i (newGridLine i Horizontal r c) g') [0..<cols g])
                [0..<Suc (rows g)] g
      in fold (\<lambda>r. fold (\<lambda>c g'.
                  let i = generateGridLineId CHR ''v'' r c
                  in setGridLine i (newGridLine i Vertical r c) g') [0..<Suc (cols g)])
           [0..<rows g] g1)"

definition getGridLine :: "grid \<Rightarrow> lineId \<Rightarrow> gridLine option" where
  "getGridLine g i = map_of (gridLines g) i"

definition setMirror :: "lineId \<Rightarrow> bool \<Rightarrow> grid \<Rightarrow> grid" where
  "setMirror i b g =
     (case getGridLine g i of
        None \<Rightarrow> g
      | Some l \<Rightarrow> g\<lparr>gridLines := AList.update i (l\<lparr>isMirror := b\<rparr>) (gridLines g)\<rparr>)"

definition placeBoundaryMirrors :: "grid \<Rightarrow> grid" where
  "placeBoundaryMirrors g =
     (let g1 = fold (\<lambda>c. setMirror (generateGridLineId CHR ''h'' 0 c) True) [0..<cols g] g;
          g2 = fold (\<lambda>c. setMirror (generateGridLineId CHR ''h'' (rows g) c) True) [0..<cols g] g1;
          g3 = fold (\<lambda>r. setMirror (generateGridLineId CHR ''v'' r 0) True) [0..<rows g] g2
      in fold (\<lambda>r. setMirror (generateGridLineId CHR ''v'' r (cols g)) True) [0..<rows g] g3)"

text \<open>
  The body of the loop of \<open>computeConnections\<close> for one grid line: the four guarded
  assignments to \<open>gridLine.connections[...]\<close>, in the order of the source.
\<close>

definition connectLine :: "grid \<Rightarrow> gridLine \<Rightarrow> gridLine" where
  "connectLine g l =
     (if line_type l = Horizontal then
        (let c0 = connections l;
             c1 = (if col l \<ge> 0 \<and> row l > 0
                   then c0(NW := Some (generateGridLineId CHR ''v'' (row l - 1) (col l))) else c0);
             c2 = (if row l > 0
                   then c1(NE := Some (generateGridLineId CHR ''v'' (row l - 1) (col l + 1))) else c1);
             c3 = (if col l \<ge> 0 \<and> row l < rows g
                   then c2(SW := Some (generateGridLineId CHR ''v'' (row l) (col l))) else c2);
             c4 = (if row l < rows g
                   then c3(SE := Some (generateGridLineId CHR ''v'' (row l) (col l + 1))) else c3)
         in l\<lparr>connections := c4\<rparr>)
      else
        (let c0 = connections l;
             c1 = (if row l \<ge> 0 \<and> col l > 0
                   then c0(NW := Some (generateGridLineId CHR ''h'' (row l) (col l - 1))) else c0);
             c2 = (if row l \<ge> 0 \<and> col l < cols g
                   then c1(NE := Some (generateGridLineId CHR ''h'' (row l) (col l))) else c1);
             c3 = (if row l < rows g \<and> col l > 0
                   then c2(SW := Some (generateGridLineId CHR ''h'' (row l + 1) (col l - 1))) else c2);
             c4 = (if row l < rows g \<and> col l < cols g
                   then c3(SE := Some (generateGridLineId CHR ''h'' (row l + 1) (col l))) else c3)
         in l\<lparr>connections := c4\<rparr>))"

definition computeConnections :: "grid \<Rightarrow> grid" where
  "computeConnections g = g\<lparr>gridLines := map (\<lambda>(i, l). (i, connectLine g l)) (gridLines g)\<rparr>"

definition isBoundaryGridLine :: "grid \<Rightarrow> gridLine option \<Rightarrow> bool" where
  "isBoundaryGridLine g ol =
     (case ol of
        None \<Rightarrow> False
      | Some l \<Rightarrow>
          (if line_type l = Horizontal then row l = 0 \<or> row l = rows g
           else col l = 0 \<or> col l = cols g))"

text \<open>
  \<open>this.usedDirections.get(id).add(d)\<close> inside \<open>initializeUsedDirections\<close>. The first loop
  of that method has given every grid line id a set before the second loop reads it, so
  the lookup never misses there; a missing key leaves the state as it is in the model.
\<close>

definition addUsed :: "lineId \<Rightarrow> direction \<Rightarrow> grid \<Rightarrow> grid" where
  "addUsed i d g =
     (case usedDirections g i of
        None \<Rightarrow> g
      | Some s \<Rightarrow> g\<lparr>usedDirections := (usedDirections g)(i \<mapsto> insert d s)\<rparr>)"

definition seedBoundary :: "lineId \<times> gridLine \<Rightarrow> grid \<Rightarrow> grid" where
  "seedBoundary e g =
     (let i = fst e; l = snd e in
      if \<not> isBoundaryGridLine g (Some l) then g
      else if line_type l = Horizontal then
        (if row l = 0 then addUsed i NE (addUsed i NW g)
         else if row l = rows g then addUsed i SE (addUsed i SW g)
         else g)
      else
        (if col l = 0 then addUsed i NW (addUsed i SW g)
         else if col l = cols g then addUsed i SE (addUsed i NE g)
         else g))"

definition initializeUsedDirections :: "grid \<Rightarrow> grid" where
  "initializeUsedDirections g =
     (let g1 = fold (\<lambda>e g'. g'\<lparr>usedDirections := (usedDirections g')(fst e \<mapsto> {})\<rparr>)
                 (gridLines g) g
      in fold seedBoundary (gridLines g1) g1)"

definition Grid_new :: "nat \<Rightarrow> nat \<Rightarrow> grid" where
  "Grid_new r c =
     initializeUsedDirections (placeBoundaryMirrors (computeConnections (initializeGridLines
       \<lparr>rows = r, cols = c, gridLines = [], usedDirections = Map.empty\<rparr>)))"

datatype error = CurveLeftGrid | ProbabilityOutOfRange | TypeError

text \<open>
  \<open>getAdjacentGridLine\<close> returns \<open>null\<close> for an unknown line, throws
  \<open>"Curve left the grid"\<close> when the stored connection is \<open>null\<close>, and returns the stored id
  otherwise. Every value of the datatype is one of the four valid directions, so the
  \<open>includes\<close> test of the source always succeeds.
\<close>

definition getAdjacentGridLine :: "grid \<Rightarrow> lineId \<Rightarrow> direction \<Rightarrow> error + lineId option" where
  "getAdjacentGridLine g i d =
     (case getGridLine g i of
        None \<Rightarrow> Inr None
      | Some l \<Rightarrow>
          (case connections l d of
             None \<Rightarrow> Inl CurveLeftGrid
           | Some n \<Rightarrow> Inr (Some n)))"

definition getReflectedDirection :: "grid \<Rightarrow> lineId \<Rightarrow> direction \<Rightarrow> direction" where
  "getReflectedDirection g i d =
     (case getGridLine g i of
        None \<Rightarrow> d
      | Some l \<Rightarrow>
          if \<not> isMirror l then d
          else if line_type l = Horizontal then
            (case d of NW \<Rightarrow> SW | NE \<Rightarrow> SE | SW \<Rightarrow> NW | SE \<Rightarrow> NE)
          else
            (case d of NW \<Rightarrow> NE | NE \<Rightarrow> NW | SW \<Rightarrow> SE | SE \<Rightarrow> SW))"

definition markDirectionUsed :: "lineId \<Rightarrow> direction \<Rightarrow> grid \<Rightarrow> grid" where
  "markDirectionUsed i d g =
     (case usedDirections g i of
        None \<Rightarrow> g
      | Some s \<Rightarrow> g\<lparr>usedDirections := (usedDirections g)(i \<mapsto> insert d s)\<rparr>)"

definition isDirectionUsed :: "grid \<Rightarrow> lineId \<Rightarrow> direction \<Rightarrow> bool" where
  "isDirectionUsed g i d =
     (case usedDirections g i of None \<Rightarrow> False | Some s \<Rightarrow> d \<in> s)"

definition getUnusedDirections :: "grid \<Rightarrow> lineId \<Rightarrow> direction list" where
  "getUnusedDirections g i =
     (case getGridLine g i of
        None \<Rightarrow> []
      | Some l \<Rightarrow>
          (case usedDirections g i of
             None \<Rightarrow> []
           | Some usedDirs \<Rightarrow> filter (\<lambda>d. d \<notin> usedDirs) [NW, NE, SW, SE]))"

definition resetUsedDirections :: "grid \<Rightarrow> grid" where
  "resetUsedDirections g = initializeUsedDirections g"


section \<open>Curve tracing (logic/mirrorCurve.js)\<close>

record curve =
  curve_gridLines :: "gridLine list"
  directions :: "direction list"
  isClosed :: bool
  leftGrid :: bool
  exitPoint :: "gridLine option"
  exitDirection :: "direction option"

definition MirrorCurve_new :: "gridLine \<Rightarrow> direction \<Rightarrow> curve" where
  "MirrorCurve_new startGridLine initialDirection =
     \<lparr>curve_gridLines = [startGridLine], directions = [initialDirection],
      isClosed = False, leftGrid = False, exitPoint = None, exitDirection = None\<rparr>"

definition addSegment :: "gridLine \<Rightarrow> direction \<Rightarrow> curve \<Rightarrow> curve" where
  "addSegment nextGridLine nextDirection c =
     c\<lparr>curve_gridLines := curve_gridLines c @ [nextGridLine],
       directions := directions c @ [nextDirection]\<rparr>"

definition MAX_SEGMENTS :: nat where
  "MAX_SEGMENTS = 1000000"

text \<open>The conditional chain that computes \<open>oppositeDirection\<close> in \<open>buildCurve\<close>.\<close>

definition oppositeDirection :: "direction \<Rightarrow> direction" where
  "oppositeDirection currentDirection =
     (if currentDirection = NW then SE
      else if currentDirection = SE then NW
      else if currentDirection = NE then SW
      else NE)"

text \<open>
  One pass through the body of the \<open>while\<close> loop of \<open>buildCurve\<close>: either the method
  returns (\<open>Done\<close>, with the value returned or the error thrown), or the loop goes on with
  a new current grid line and direction (\<open>Next\<close>).
\<close>

datatype iteration =
  Done "error + bool" curve grid
| Next gridLine direction curve grid

definition buildCurve_iteration :: "gridLine \<Rightarrow> direction \<Rightarrow> curve \<Rightarrow> grid \<Rightarrow> iteration" where
  "buildCurve_iteration currentGridLine currentDirection c g =
     (case getAdjacentGridLine g (line_id currentGridLine) currentDirection of
        Inl e \<Rightarrow>
          (if e = CurveLeftGrid
           then Done (Inr True)
                  (c\<lparr>leftGrid := True, exitPoint := Some currentGridLine,
                     exitDirection := Some currentDirection\<rparr>) g
           else Done (Inl e) c g)
      | Inr nextLineId \<Rightarrow>
          (case (case nextLineId of None \<Rightarrow> None | Some n \<Rightarrow> getGridLine g n) of
             None \<Rightarrow> Done (Inr False) c g
           | Some nextGridLine \<Rightarrow>
               (let n = the nextLineId;
                    nextDirection =
                      (if isMirror nextGridLine
                       then getReflectedDirection g n currentDirection
                       else currentDirection);
                    c1 = addSegment nextGridLine nextDirection c;
                    g1 = markDirectionUsed n nextDirection g;
                    g2 = markDirectionUsed n (oppositeDirection currentDirection) g1
                in if length (curve_gridLines c1) > 2
                      \<and> line_id nextGridLine = line_id (hd (curve_gridLines c1))
                      \<and> nextDirection = hd (directions c1)
                   then Done (Inr True) (c1\<lparr>isClosed := True\<rparr>) g2
                   else Next nextGridLine nextDirection c1 g2)))"

function buildCurve_loop ::
  "gridLine \<Rightarrow> direction \<Rightarrow> curve \<Rightarrow> grid \<Rightarrow> (error + bool) \<times> curve \<times> grid" where
  "buildCurve_loop currentGridLine currentDirection c g =
     (if length (curve_gridLines c) < MAX_SEGMENTS then
        (case buildCurve_iteration currentGridLine currentDirection c g of
           Done r c' g' \<Rightarrow> (r, c', g')
         | Next nextGridLine nextDirection c' g' \<Rightarrow>
             buildCurve_loop nextGridLine nextDirection c' g')
      else (Inr False, c, g))"
  by pat_completeness auto
termination
  by (relation "measure (\<lambda>(cur, d, c, g). MAX_SEGMENTS - length (curve_gridLines c))")
     (auto simp: buildCurve_iteration_def addSegment_def Let_def
           split: sum.splits option.splits if_splits)

declare buildCurve_loop.simps [simp del]

text \<open>
  \<open>buildCurve\<close> reads \<open>this.gridLines[0]\<close> and \<open>this.directions[0]\<close>. The constructor puts
  one element into both arrays and \<open>addSegment\<close> only pushes, so they are never empty; on
  an empty \<open>gridLines\<close> the read of \<open>currentGridLine.id\<close> throws a TypeError, and with no
  initial direction the first lookup of a neighbour returns \<open>null\<close> and the build fails.
\<close>

definition buildCurve :: "curve \<Rightarrow> grid \<Rightarrow> (error + bool) \<times> curve \<times> grid" where
  "buildCurve c g =
     (case curve_gridLines c of
        [] \<Rightarrow> (Inl TypeError, c, g)
      | currentGridLine # _ \<Rightarrow>
          (case directions c of
             [] \<Rightarrow> (Inr False, c, g)
           | currentDirection # _ \<Rightarrow>
               buildCurve_loop currentGridLine currentDirection c
                 (markDirectionUsed (line_id currentGridLine) currentDirection g)))"

section \<open>Curve enumeration (logic/curveFinder.js)\<close>

text \<open>
  The \<open>for\<close> loop of \<open>findNextCurve\<close> over the entries of \<open>grid.gridLines\<close>: the remaining
  entries are the list argument. A failed build, or an error thrown by it, is logged and
  the scan goes on with the next grid line.
\<close>

fun findNextCurve_scan :: "(lineId \<times> gridLine) list \<Rightarrow> grid \<Rightarrow> curve option \<times> grid" where
  "findNextCurve_scan [] g = (None, g)"
| "findNextCurve_scan ((i, gridLine) # rest) g =
     (let unusedDirections = getUnusedDirections g i in
      if length unusedDirections > 0 then
        (let direction = hd unusedDirections;
             c = MirrorCurve_new gridLine direction
         in case buildCurve c g of
              (Inr success, c', g') \<Rightarrow>
                if success then (Some c', g') else findNextCurve_scan rest g'
            | (Inl e, c', g') \<Rightarrow> findNextCurve_scan rest g')
      else findNextCurve_scan rest g)"

definition findNextCurve :: "grid \<Rightarrow> curve option \<times> grid" where
  "findNextCurve g = findNextCurve_scan (gridLines g) g"

text \<open>
  The \<open>while\<close> loop of \<open>findAllCurves\<close> has no bound of its own: it runs until
  \<open>findNextCurve\<close> returns \<open>null\<close>. Not returning is the value \<open>None\<close>.
\<close>

partial_function (option) findAllCurves_loop ::
  "curve list \<Rightarrow> grid \<Rightarrow> (curve list \<times> grid) option" where
  "findAllCurves_loop curves g =
     (case findNextCurve g of
        (None, g') \<Rightarrow> Some (curves, g')
      | (Some c, g') \<Rightarrow> findAllCurves_loop (curves @ [c]) g')"

declare findAllCurves_loop.simps [code]

definition findAllCurves :: "grid \<Rightarrow> (curve list \<times> grid) option" where
  "findAllCurves g = findAllCurves_loop [] (resetUsedDirections g)"

section \<open>Random mirrors (logic/grid.js) and the state manager (core/stateManager.js)\<close>

text \<open>
  \<open>Math.random()\<close> is a parameter of the model: \<open>rnd\<close> is the sequence of values it
  returns and \<open>n\<close> counts the values drawn so far. The loop of \<open>randomizeMirrors\<close> runs
  over the entries of \<open>gridLines\<close>; an entry is visited once and \<open>setMirror\<close> changes no
  other entry, so the \<open>gridLine.isMirror\<close> it reads is the one of the entry listed.
\<close>

fun randomizeMirrors_loop ::
  "real \<Rightarrow> (nat \<Rightarrow> real) \<Rightarrow> (lineId \<times> gridLine) list \<Rightarrow> nat \<Rightarrow> grid \<Rightarrow> grid" where
  "randomizeMirrors_loop p rnd [] n g = g"
| "randomizeMirrors_loop p rnd ((i, gridLine) # rest) n g =
     (let t = fst (parseGridLineId i);
          r = fst (snd (parseGridLineId i));
          c = snd (snd (parseGridLineId i));
          isBoundary = ((t = CHR ''h'' \<and> (r = 0 \<or> r = rows g))
                        \<or> (t = CHR ''v'' \<and> (c = 0 \<or> c = cols g)))
      in if isBoundary then randomizeMirrors_loop p rnd rest n g
         else if rnd n < p
              then randomizeMirrors_loop p rnd rest (Suc n)
                     (setMirror i (\<not> isMirror gridLine) g)
              else randomizeMirrors_loop p rnd rest (Suc n) g)"

text \<open>
  The result is the pair of what the call does (an error thrown, or a normal return) and
  the grid it leaves behind.
\<close>

definition randomizeMirrors :: "real \<Rightarrow> (nat \<Rightarrow> real) \<Rightarrow> grid \<Rightarrow> (error + unit) \<times> grid" where
  "randomizeMirrors p rnd g =
     (if p < 0 \<or> p > 1 then (Inl ProbabilityOutOfRange, g)
      else (Inr (), randomizeMirrors_loop p rnd (gridLines g) 0 g))"

text \<open>
  The part of the application state that the actions on the grid read and write. The
  actions modelled are those that change \<open>state.grid\<close> synchronously; the settings and
  the animation queue are left out.
\<close>

record state =
  grid :: grid
  curves :: "curve list"
  animationPath :: "(real \<times> real) list option"

datatype action =
  UPDATE_GRID nat nat
| RANDOM
| RESET
| REDRAW
| TOGGLE_MIRROR lineId

fun dispatch :: "(nat \<Rightarrow> real) \<Rightarrow> action \<Rightarrow> state \<Rightarrow> state" where
  "dispatch rnd (UPDATE_GRID r c) s =
     s\<lparr>grid := Grid_new r c, curves := [], animationPath := None\<rparr>"
| "dispatch rnd RANDOM s =
     (case randomizeMirrors (15 / 100) rnd (grid s) of
        (Inl e, g') \<Rightarrow> s\<lparr>grid := g'\<rparr>
      | (Inr u, g') \<Rightarrow> s\<lparr>grid := g', curves := [], animationPath := None\<rparr>)"
| "dispatch rnd RESET s =
     s\<lparr>grid := resetUsedDirections (grid s), curves := [], animationPath := None\<rparr>"
| "dispatch rnd REDRAW s =
     s\<lparr>grid := resetUsedDirections (grid s), curves := [], animationPath := None\<rparr>"
| "dispatch rnd (TOGGLE_MIRROR gridLineId) s =
     (case getGridLine (grid s) gridLineId of
        None \<Rightarrow> s
      | Some line \<Rightarrow>
          if \<not> isBoundaryGridLine (grid s) (Some line)
          then s\<lparr>grid := setMirror gridLineId (\<not> isMirror line) (grid s),
                 curves := [], animationPath := None\<rparr>
          else s)"

text \<open>
  The grids the program can hold: a grid constructed with at least one row and one
  column, and whatever the operations above, \<open>randomizeMirrors\<close> with any argument and
  the two curve finders make of such a grid.
\<close>

fun validAction :: "action \<Rightarrow> bool" where
  "validAction (UPDATE_GRID r c) = (1 \<le> r \<and> 1 \<le> c)"
| "validAction a = True"

inductive reachable :: "grid \<Rightarrow> bool" where
  constructed: "1 \<le> r \<Longrightarrow> 1 \<le> c \<Longrightarrow> reachable (Grid_new r c)"
| dispatched: "reachable (grid s) \<Longrightarrow> validAction a \<Longrightarrow> reachable (grid (dispatch rnd a s))"
| randomized: "reachable g \<Longrightarrow> reachable (snd (randomizeMirrors p rnd g))"
| nextCurve: "reachable g \<Longrightarrow> reachable (snd (findNextCurve g))"
| allCurves: "reachable g \<Longrightarrow> findAllCurves g = Some (cs, g') \<Longrightarrow> reachable g'"

section \<open>Arc-length sampling (core/animationManager.js) and the spline (drawing/spline.js)\<close>

text \<open>
  A point \<open>{x, y}\<close> is the pair of its coordinates. JavaScript numbers are modelled by the
  reals: rounding, infinities and NaN are outside the model.
\<close>

type_synonym point = "real \<times> real"

text \<open>
  The \<open>for\<close> loop of \<open>getPointAtDistance\<close> over the indices \<open>i = 1, ..., length - 1\<close>, with the
  distance travelled so far: it returns from inside the loop (\<open>Inl\<close>), or ends with the
  total distance (\<open>Inr\<close>).
\<close>

fun getPointAtDistance_loop ::
  "point list \<Rightarrow> real \<Rightarrow> nat list \<Rightarrow> real \<Rightarrow> (point \<times> nat) + real" where
  "getPointAtDistance_loop points targetDistance [] distanceTraveled = Inr distanceTraveled"
| "getPointAtDistance_loop points targetDistance (i # rest) distanceTraveled =
     (let dx = fst (points ! i) - fst (points ! (i - 1));
          dy = snd (points ! i) - snd (points ! (i - 1));
          segmentLength = sqrt (dx * dx + dy * dy)
      in if distanceTraveled + segmentLength \<ge> targetDistance then
           (let remainingDistance = targetDistance - distanceTraveled;
                ratio = remainingDistance / segmentLength
            in Inl ((fst (points ! (i - 1)) + ratio * dx, snd (points ! (i - 1)) + ratio * dy),
                    i - 1))
         else getPointAtDistance_loop points targetDistance rest
                (distanceTraveled + segmentLength))"

text \<open>
  The result \<open>{point, segmentIndex}\<close> is a pair; \<open>points[0]\<close> of an empty array is
  \<open>undefined\<close>, the value \<open>None\<close>. The parameter \<open>isClosed\<close> is named \<open>closedPath\<close>.
\<close>

definition getPointAtDistance :: "point list \<Rightarrow> real \<Rightarrow> bool \<Rightarrow> point option \<times> nat" where
  "getPointAtDistance points targetDistance closedPath =
     (if length points < 2 \<or> targetDistance \<le> 0 then
        ((case points of [] \<Rightarrow> None | p # _ \<Rightarrow> Some p), 0)
      else
        (case getPointAtDistance_loop points targetDistance [1..<length points] 0 of
           Inl (p, k) \<Rightarrow> (Some p, k)
         | Inr distanceTraveled \<Rightarrow>
             (let n = length points;
                  dx = fst (points ! 0) - fst (points ! (n - 1));
                  dy = snd (points ! 0) - snd (points ! (n - 1));
                  segmentLength = sqrt (dx * dx + dy * dy)
              in if closedPath \<and> n > 1 \<and> distanceTraveled + segmentLength \<ge> targetDistance then
                   (let remainingDistance = targetDistance - distanceTraveled;
                        ratio = remainingDistance / segmentLength
                    in (Some (fst (points ! (n - 1)) + ratio * dx,
                              snd (points ! (n - 1)) + ratio * dy), n - 1))
                 else (Some (if closedPath then points ! 0 else points ! (n - 1)), n - 1))))"

definition segmentSubdivision :: "point \<Rightarrow> point \<Rightarrow> point \<Rightarrow> point \<Rightarrow> nat \<Rightarrow> point list" where
  "segmentSubdivision P0 P1 M0 M1 subdivisions =
     map (\<lambda>j. let t = real j / real subdivisions;
                  t2 = t * t;
                  t3 = t2 * t;
                  h00 = 2 * t3 - 3 * t2 + 1;
                  h10 = t3 - 2 * t2 + t;
                  h01 = - 2 * t3 + 3 * t2;
                  h11 = t3 - t2
              in (h00 * fst P0 + h10 * fst M0 + h01 * fst P1 + h11 * fst M1,
                  h00 * snd P0 + h10 * snd M0 + h01 * snd P1 + h11 * snd M1))
       [0..<subdivisions]"

text \<open>
  The first loop of \<open>getSplinePoints\<close>: the tangent of every effective point. The index
  \<open>(i - 1 + numPoints) % numPoints\<close> is written with the addition first, so that the
  subtraction stays within the natural numbers.
\<close>

definition splineTangents :: "point list \<Rightarrow> real \<Rightarrow> point list" where
  "splineTangents effectivePoints tension =
     (let numPoints = length effectivePoints in
      map (\<lambda>i. let prev = effectivePoints ! ((i + numPoints - 1) mod numPoints);
                   next = effectivePoints ! ((i + 1) mod numPoints)
               in (((fst next - fst prev) * (1 - tension)) / 2,
                   ((snd next - snd prev) * (1 - tension)) / 2))
        [0..<numPoints])"

text \<open>
  The test \<open>alreadyClosed\<close> of \<open>getSplinePoints\<close>, and the function itself. Both branches
  of the \<open>if\<close> inside the second loop push the whole segment, so the loop appends the
  samples of every segment.
\<close>

definition alreadyClosed :: "point list \<Rightarrow> bool" where
  "alreadyClosed rawPoints =
     (let N = length rawPoints in
      N > 1 \<and> \<bar>fst (rawPoints ! 0) - fst (rawPoints ! (N - 1))\<bar> < 1 / 1000
            \<and> \<bar>snd (rawPoints ! 0) - snd (rawPoints ! (N - 1))\<bar> < 1 / 1000)"

definition getSplinePoints :: "point list \<Rightarrow> real \<Rightarrow> nat \<Rightarrow> point list" where
  "getSplinePoints rawPoints tension subdivisions =
     (let N = length rawPoints in
      if N < 2 then rawPoints
      else
        (let effectivePoints = (if alreadyClosed rawPoints then take (N - 1) rawPoints
                                else rawPoints);
             numPoints = length effectivePoints;
             tangents = splineTangents effectivePoints tension;
             curve = concat (map (\<lambda>i.
                        segmentSubdivision (effectivePoints ! i)
                          (effectivePoints ! ((i + 1) mod numPoints))
                          (tangents ! i) (tangents ! ((i + 1) mod numPoints)) subdivisions)
                      [0..<numPoints])
         in if alreadyClosed rawPoints
            then curve @ [(fst (effectivePoints ! 0), snd (effectivePoints ! 0))]
            else curve))"

section \<open>Specification-side definitions\<close>

text \<open>
  The reflection table in the words of the specification: a function of the orientation
  and the mirror flag alone.
\<close>

definition reflectionOf :: "lineType \<Rightarrow> bool \<Rightarrow> direction \<Rightarrow> direction" where
  "reflectionOf t m d =
     (if \<not> m then d
      else case t of
        Horizontal \<Rightarrow> (case d of NW \<Rightarrow> SW | SW \<Rightarrow> NW | NE \<Rightarrow> SE | SE \<Rightarrow> NE)
      | Vertical \<Rightarrow> (case d of NW \<Rightarrow> NE | NE \<Rightarrow> NW | SW \<Rightarrow> SE | SE \<Rightarrow> SW))"

text \<open>The curve and the grid that one pass through the loop body leaves behind.\<close>

fun iteration_curve :: "iteration \<Rightarrow> curve" where
  "iteration_curve (Done r c g) = c"
| "iteration_curve (Next l d c g) = c"

fun iteration_grid :: "iteration \<Rightarrow> grid" where
  "iteration_grid (Done r c g) = g"
| "iteration_grid (Next l d c g) = g"

text \<open>The steps of a curve: its grid lines, by id, paired with its directions.\<close>

definition steps :: "curve \<Rightarrow> (lineId \<times> direction) list" where
  "steps c = zip (map line_id (curve_gridLines c)) (directions c)"

text \<open>
  Two concrete grids used as test inputs: the 1 x 1 grid as constructed, and the 1 x 2 grid
  whose only interior line, the vertical line \<open>v_0_1\<close>, has been made a mirror.
\<close>

definition grid_1x1 :: grid where
  "grid_1x1 = Grid_new 1 1"

definition grid_1x2_mirror :: grid where
  "grid_1x2_mirror = setMirror (CHR ''v'', 0, 1) True (Grid_new 1 2)"

text \<open>
  The ids of the grid lines of a \<open>R \<times> C\<close> grid in the order of the specification: all
  horizontal lines row by row, then all vertical lines row by row.
\<close>

definition horizontalIds :: "nat \<Rightarrow> nat \<Rightarrow> lineId list" where
  "horizontalIds R C = concat (map (\<lambda>r. map (\<lambda>c. (CHR ''h'', r, c)) [0..<C]) [0..<Suc R])"

definition verticalIds :: "nat \<Rightarrow> nat \<Rightarrow> lineId list" where
  "verticalIds R C = concat (map (\<lambda>r. map (\<lambda>c. (CHR ''v'', r, c)) [0..<Suc C]) [0..<R])"

definition allLineIds :: "nat \<Rightarrow> nat \<Rightarrow> lineId list" where
  "allLineIds R C = horizontalIds R C @ verticalIds R C"

text \<open>
  Closed forms, used in the proofs, of what the constructor stores for the grid line with
  a given id: its neighbours, and the whole record with mirror flag \<open>m\<close>.
\<close>

definition connectionsOf :: "nat \<Rightarrow> nat \<Rightarrow> lineId \<Rightarrow> direction \<Rightarrow> lineId option" where
  "connectionsOf R C i d =
     (let r = fst (snd i); c = snd (snd i) in
      if fst i = CHR ''h'' then
        (case d of
           NW \<Rightarrow> if r > 0 then Some (CHR ''v'', r - 1, c) else None
         | NE \<Rightarrow> if r > 0 then Some (CHR ''v'', r - 1, c + 1) else None
         | SW \<Rightarrow> if r < R then Some (CHR ''v'', r, c) else None
         | SE \<Rightarrow> if r < R then Some (CHR ''v'', r, c + 1) else None)
      else
        (case d of
           NW \<Rightarrow> if c > 0 then Some (CHR ''h'', r, c - 1) else None
         | NE \<Rightarrow> if c < C then Some (CHR ''h'', r, c) else None
         | SW \<Rightarrow> if r < R \<and> c > 0 then Some (CHR ''h'', r + 1, c - 1) else None
         | SE \<Rightarrow> if r < R \<and> c < C then Some (CHR ''h'', r + 1, c) else None))"

definition lineOf :: "nat \<Rightarrow> nat \<Rightarrow> bool \<Rightarrow> lineId \<Rightarrow> gridLine" where
  "lineOf R C m i =
     \<lparr>line_id = i,
      line_type = (if fst i = CHR ''h'' then Horizontal else Vertical),
      row = fst (snd i), col = snd (snd i), isMirror = m,
      connections = connectionsOf R C i\<rparr>"

definition linesOf :: "nat \<Rightarrow> nat \<Rightarrow> (lineId \<Rightarrow> bool) \<Rightarrow> (lineId \<times> gridLine) list" where
  "linesOf R C m = map (\<lambda>i. (i, lineOf R C (m i) i)) (allLineIds R C)"

text \<open>The id of a boundary line, as \<open>randomizeMirrors\<close> tests it on the parsed id.\<close>

definition isBoundaryId :: "nat \<Rightarrow> nat \<Rightarrow> lineId \<Rightarrow> bool" where
  "isBoundaryId R C i =
     ((fst i = CHR ''h'' \<and> (fst (snd i) = 0 \<or> fst (snd i) = R))
      \<or> (fst i = CHR ''v'' \<and> (snd (snd i) = 0 \<or> snd (snd i) = C)))"

text \<open>The grid line object that \<open>initializeGridLines\<close> stores under an id.\<close>

definition newLineOf :: "lineId \<Rightarrow> gridLine" where
  "newLineOf i =
     newGridLine i (if fst i = CHR ''h'' then Horizontal else Vertical)
       (fst (snd i)) (snd (snd i))"

text \<open>
  The directions that \<open>initializeUsedDirections\<close> marks as used on a grid line, from the
  fields of the line, and from its id.
\<close>

definition seedOf :: "nat \<Rightarrow> nat \<Rightarrow> gridLine \<Rightarrow> direction set" where
  "seedOf R C l =
     (if line_type l = Horizontal
      then (if row l = 0 then {NW, NE} else if row l = R then {SW, SE} else {})
      else (if col l = 0 then {SW, NW} else if col l = C then {NE, SE} else {}))"

definition preSeeded :: "nat \<Rightarrow> nat \<Rightarrow> lineId \<Rightarrow> direction set" where
  "preSeeded R C i =
     (if fst i = CHR ''h''
      then (if fst (snd i) = 0 then {NW, NE} else if fst (snd i) = R then {SW, SE} else {})
      else (if snd (snd i) = 0 then {SW, NW} else if snd (snd i) = C then {NE, SE} else {}))"

text \<open>
  The invariant of the reachable grids: the grid lines are those of the constructor up to
  the mirror flags of the interior lines, every boundary line is a mirror, and every
  grid line has a set of used directions.
\<close>

definition mirrorAt :: "grid \<Rightarrow> lineId \<Rightarrow> bool" where
  "mirrorAt g i = (case getGridLine g i of None \<Rightarrow> False | Some l \<Rightarrow> isMirror l)"

definition wellFormed :: "grid \<Rightarrow> bool" where
  "wellFormed g \<longleftrightarrow>
     1 \<le> rows g \<and> 1 \<le> cols g
     \<and> gridLines g = linesOf (rows g) (cols g) (mirrorAt g)
     \<and> (\<forall>i \<in> set (allLineIds (rows g) (cols g)).
           isBoundaryId (rows g) (cols g) i \<longrightarrow> mirrorAt g i)
     \<and> set (allLineIds (rows g) (cols g)) \<subseteq> dom (usedDirections g)"

text \<open>
  What tracing a curve leaves untouched: the dimensions, the grid lines, and the set of
  ids that have a set of used directions.
\<close>

definition sameLines :: "grid \<Rightarrow> grid \<Rightarrow> bool" where
  "sameLines g g' \<longleftrightarrow>
     rows g' = rows g \<and> cols g' = cols g \<and> gridLines g' = gridLines g
     \<and> dom (usedDirections g') = dom (usedDirections g)"

text \<open>
  The tangents in the words of the specification for an open sequence: the neighbours of
  a point are clamped at the two ends instead of wrapping around.
\<close>

definition clampedTangents :: "point list \<Rightarrow> real \<Rightarrow> point list" where
  "clampedTangents points tension =
     map (\<lambda>i. let prev = points ! (i - 1);
                  next = points ! (min (i + 1) (length points - 1))
              in (((fst next - fst prev) * (1 - tension)) / 2,
                  ((snd next - snd prev) * (1 - tension)) / 2))
       [0..<length points]"

section \<open>The walk as a map on (grid line, direction) pairs\<close>

text \<open>
  Definitions for the proof of the covering property. A pair is valid when its grid line
  exists and has a neighbour in its direction; \<open>stepPair\<close> is one step of the walk of
  \<open>buildCurve\<close>; \<open>backPair\<close> is the pair of the reverse walk through the same line, which
  \<open>buildCurve\<close> marks together with the pair itself; \<open>chirality\<close> tells a walk from its
  reverse.
\<close>

type_synonym pair = "lineId \<times> direction"

definition lineTypeOf :: "lineId \<Rightarrow> lineType" where
  "lineTypeOf i = (if fst i = CHR ''h'' then Horizontal else Vertical)"

definition validPair :: "grid \<Rightarrow> pair \<Rightarrow> bool" where
  "validPair g x \<longleftrightarrow>
     fst x \<in> set (allLineIds (rows g) (cols g))
     \<and> connectionsOf (rows g) (cols g) (fst x) (snd x) \<noteq> None"

definition stepPair :: "grid \<Rightarrow> pair \<Rightarrow> pair" where
  "stepPair g x =
     (case connectionsOf (rows g) (cols g) (fst x) (snd x) of
        None \<Rightarrow> x
      | Some n \<Rightarrow> (n, reflectionOf (lineTypeOf n) (mirrorAt g n) (snd x)))"

definition backPair :: "grid \<Rightarrow> pair \<Rightarrow> pair" where
  "backPair g x =
     (fst x, oppositeDirection (reflectionOf (lineTypeOf (fst x)) (mirrorAt g (fst x)) (snd x)))"

definition chirality :: "pair \<Rightarrow> bool" where
  "chirality x =
     (if fst (fst x) = CHR ''h''
      then (snd x = SW \<or> snd x = NW) = even (fst (snd (fst x)) + snd (snd (fst x)))
      else (snd x = SW \<or> snd x = SE) = even (fst (snd (fst x)) + snd (snd (fst x))))"

text \<open>The pairs \<open>x, f x, ..., f^k x\<close>, and the smallest positive period of \<open>x\<close>.\<close>

definition orbitList :: "grid \<Rightarrow> pair \<Rightarrow> nat \<Rightarrow> pair list" where
  "orbitList g x k = map (\<lambda>j. (stepPair g ^^ j) x) [0..<Suc k]"

definition period :: "grid \<Rightarrow> pair \<Rightarrow> nat" where
  "period g x = (LEAST n. 0 < n \<and> (stepPair g ^^ n) x = x)"

text \<open>
  The pairs that \<open>buildCurve\<close> marks for the steps of a curve after its first: each step
  itself, and its grid line with the opposite of the direction of the step before.
\<close>

fun marksOf :: "pair list \<Rightarrow> pair list" where
  "marksOf (x # y # rest) = y # (fst y, oppositeDirection (snd x)) # marksOf (y # rest)"
| "marksOf [x] = []"
| "marksOf [] = []"

text \<open>The pairs marked as used in a grid.\<close>

definition usedPairs :: "grid \<Rightarrow> pair set" where
  "usedPairs g = {x. \<exists>U. usedDirections g (fst x) = Some U \<and> snd x \<in> U}"

definition allPairs :: "grid \<Rightarrow> pair set" where
  "allPairs g = set (allLineIds (rows g) (cols g)) \<times> UNIV"

text \<open>All pairs on the walk from a pair, and the invariant of the enumeration.\<close>

definition orbit :: "grid \<Rightarrow> pair \<Rightarrow> pair set" where
  "orbit g x = range (\<lambda>j. (stepPair g ^^ j) x)"

definition curveInv :: "grid \<Rightarrow> bool" where
  "curveInv g \<longleftrightarrow>
     wellFormed g
     \<and> (\<forall>x \<in> allPairs g. \<not> validPair g x \<longrightarrow> x \<in> usedPairs g)
     \<and> (\<forall>x. validPair g x \<and> x \<in> usedPairs g
            \<longrightarrow> stepPair g x \<in> usedPairs g \<and> backPair g x \<in> usedPairs g)"

section \<open>Evaluation of the definitions\<close>

lemmas grid_defs =
  Grid_new_def initializeGridLines_def computeConnections_def placeBoundaryMirrors_def
  initializeUsedDirections_def setGridLine_def newGridLine_def generateGridLineId_def
  setMirror_def getGridLine_def connectLine_def seedBoundary_def isBoundaryGridLine_def
  addUsed_def resetUsedDirections_def

lemmas curve_defs =
  findNextCurve_def buildCurve_def buildCurve_loop.simps buildCurve_iteration_def
  MirrorCurve_new_def addSegment_def MAX_SEGMENTS_def oppositeDirection_def
  getAdjacentGridLine_def getReflectedDirection_def markDirectionUsed_def
  getUnusedDirections_def

lemma grid_1x1_eval:
  "grid_1x1 =
     \<lparr>rows = 1, cols = 1,
      gridLines =
        [((CHR ''h'', 0, 0),
          \<lparr>line_id = (CHR ''h'', 0, 0), line_type = Horizontal, row = 0, col = 0,
           isMirror = True,
           connections = [SW \<mapsto> (CHR ''v'', 0, 0), SE \<mapsto> (CHR ''v'', 0, 1)]\<rparr>),
         ((CHR ''h'', 1, 0),
          \<lparr>line_id = (CHR ''h'', 1, 0), line_type = Horizontal, row = 1, col = 0,
           isMirror = True,
           connections = [NW \<mapsto> (CHR ''v'', 0, 0), NE \<mapsto> (CHR ''v'', 0, 1)]\<rparr>),
         ((CHR ''v'', 0, 0),
          \<lparr>line_id = (CHR ''v'', 0, 0), line_type = Vertical, row = 0, col = 0,
           isMirror = True,
           connections = [NE \<mapsto> (CHR ''h'', 0, 0), SE \<mapsto> (CHR ''h'', 1, 0)]\<rparr>),
         ((CHR ''v'', 0, 1),
          \<lparr>line_id = (CHR ''v'', 0, 1), line_type = Vertical, row = 0, col = 1,
           isMirror = True,
           connections = [NW \<mapsto> (CHR ''h'', 0, 0), SW \<mapsto> (CHR ''h'', 1, 0)]\<rparr>)],
      usedDirections =
        [(CHR ''h'', 0, 0) \<mapsto> {NE, NW}, (CHR ''h'', 1, 0) \<mapsto> {SE, SW},
         (CHR ''v'', 0, 0) \<mapsto> {NW, SW}, (CHR ''v'', 0, 1) \<mapsto> {SE, NE}]\<rparr>"
  by (simp add: grid_1x1_def grid_defs upt_rec Let_def)

lemma grid_1x2_mirror_eval:
  "grid_1x2_mirror =
     \<lparr>rows = 1, cols = 2,
      gridLines =
        [((CHR ''h'', 0, 0),
          \<lparr>line_id = (CHR ''h'', 0, 0), line_type = Horizontal, row = 0, col = 0,
           isMirror = True,
           connections = [SW \<mapsto> (CHR ''v'', 0, 0), SE \<mapsto> (CHR ''v'', 0, 1)]\<rparr>),
         ((CHR ''h'', 0, 1),
          \<lparr>line_id = (CHR ''h'', 0, 1), line_type = Horizontal, row = 0, col = 1,
           isMirror = True,
           connections = [SW \<mapsto> (CHR ''v'', 0, 1), SE \<mapsto> (CHR ''v'', 0, 2)]\<rparr>),
         ((CHR ''h'', 1, 0),
          \<lparr>line_id = (CHR ''h'', 1, 0), line_type = Horizontal, row = 1, col = 0,
           isMirror = True,
           connections = [NW \<mapsto> (CHR ''v'', 0, 0), NE \<mapsto> (CHR ''v'', 0, 1)]\<rparr>),
         ((CHR ''h'', 1, 1),
          \<lparr>line_id = (CHR ''h'', 1, 1), line_type = Horizontal, row = 1, col = 1,
           isMirror = True,
           connections = [NW \<mapsto> (CHR ''v'', 0, 1), NE \<mapsto> (CHR ''v'', 0, 2)]\<rparr>),
         ((CHR ''v'', 0, 0),
          \<lparr>line_id = (CHR ''v'', 0, 0), line_type = Vertical, row = 0, col = 0,
           isMirror = True,
           connections = [NE \<mapsto> (CHR ''h'', 0, 0), SE \<mapsto> (CHR ''h'', 1, 0)]\<rparr>),
         ((CHR ''v'', 0, 1),
          \<lparr>line_id = (CHR ''v'', 0, 1), line_type = Vertical, row = 0, col = 1,
           isMirror = True,
           connections = [NW \<mapsto> (CHR ''h'', 0, 0), NE \<mapsto> (CHR ''h'', 0, 1),
                          SW \<mapsto> (CHR ''h'', 1, 0), SE \<mapsto> (CHR ''h'', 1, 1)]\<rparr>),
         ((CHR ''v'', 0, 2),
          \<lparr>line_id = (CHR ''v'', 0, 2), line_type = Vertical, row = 0, col = 2,
           isMirror = True,
           connections = [NW \<mapsto> (CHR ''h'', 0, 1), SW \<mapsto> (CHR ''h'', 1, 1)]\<rparr>)],
      usedDirections =
        [(CHR ''v'', 0, 1) \<mapsto> {}, (CHR ''h'', 0, 0) \<mapsto> {NE, NW},
         (CHR ''h'', 0, 1) \<mapsto> {NE, NW}, (CHR ''h'', 1, 0) \<mapsto> {SE, SW},
         (CHR ''h'', 1, 1) \<mapsto> {SE, SW}, (CHR ''v'', 0, 0) \<mapsto> {NW, SW},
         (CHR ''v'', 0, 2) \<mapsto> {SE, NE}]\<rparr>"
  by (simp add: grid_1x2_mirror_def grid_defs upt_rec Let_def numeral_2_eq_2)

section \<open>The grid lines of a constructed grid\<close>

lemma update_fresh: "k \<notin> fst ` set al \<Longrightarrow> AList.update k v al = al @ [(k, v)]"
  by (induction al) auto

lemma fold_row_fresh:
  "distinct cs \<Longrightarrow> \<forall>c\<in>set cs. (t, r, c) \<notin> fst ` set (gridLines g)
   \<Longrightarrow> fold (\<lambda>c. setGridLine (generateGridLineId t r c)
                         (newGridLine (generateGridLineId t r c) T r c)) cs g
       = g\<lparr>gridLines := gridLines g
             @ map (\<lambda>c. ((t, r, c), newGridLine (t, r, c) T r c)) cs\<rparr>"
proof (induction cs arbitrary: g)
  case Nil
  then show ?case by simp
next
  case (Cons c cs)
  let ?g1 = "setGridLine (t, r, c) (newGridLine (t, r, c) T r c) g"
  have g1: "gridLines ?g1 = gridLines g @ [((t, r, c), newGridLine (t, r, c) T r c)]"
    using Cons.prems by (simp add: setGridLine_def update_fresh)
  have fresh: "\<forall>c'\<in>set cs. (t, r, c') \<notin> fst ` set (gridLines ?g1)"
    using Cons.prems g1 by auto
  have d: "distinct cs" using Cons.prems by simp
  show ?case
    using Cons.IH [OF d fresh] g1
    by (simp add: generateGridLineId_def setGridLine_def Let_def)
qed

lemma fold_rows_fresh:
  "distinct rs \<Longrightarrow> distinct cs
   \<Longrightarrow> \<forall>r\<in>set rs. \<forall>c\<in>set cs. (t, r, c) \<notin> fst ` set (gridLines g)
   \<Longrightarrow> fold (\<lambda>r. fold (\<lambda>c. setGridLine (generateGridLineId t r c)
                         (newGridLine (generateGridLineId t r c) T r c)) cs) rs g
       = g\<lparr>gridLines := gridLines g
             @ concat (map (\<lambda>r. map (\<lambda>c. ((t, r, c), newGridLine (t, r, c) T r c)) cs) rs)\<rparr>"
proof (induction rs arbitrary: g)
  case Nil
  then show ?case by simp
next
  case (Cons r rs)
  let ?g1 = "g\<lparr>gridLines := gridLines g
             @ map (\<lambda>c. ((t, r, c), newGridLine (t, r, c) T r c)) cs\<rparr>"
  have row: "fold (\<lambda>c. setGridLine (generateGridLineId t r c)
                         (newGridLine (generateGridLineId t r c) T r c)) cs g = ?g1"
    using Cons.prems by (intro fold_row_fresh) auto
  have fresh: "\<forall>r'\<in>set rs. \<forall>c\<in>set cs. (t, r', c) \<notin> fst ` set (gridLines ?g1)"
    using Cons.prems by (fastforce simp: image_iff)
  have d: "distinct rs" using Cons.prems by simp
  show ?case
    using Cons.IH [OF d Cons.prems(2) fresh] row by simp
qed

lemma initializeGridLines_lines:
  "initializeGridLines \<lparr>rows = R, cols = C, gridLines = [], usedDirections = u\<rparr>
     = \<lparr>rows = R, cols = C, gridLines = map (\<lambda>i. (i, newLineOf i)) (allLineIds R C),
        usedDirections = u\<rparr>"
proof -
  let ?g0 = "\<lparr>rows = R, cols = C, gridLines = [], usedDirections = u\<rparr>"
  let ?H = "\<lambda>r. fold (\<lambda>c. setGridLine (generateGridLineId CHR ''h'' r c)
                 (newGridLine (generateGridLineId CHR ''h'' r c) Horizontal r c)) [0..<C]"
  let ?V = "\<lambda>r. fold (\<lambda>c. setGridLine (generateGridLineId CHR ''v'' r c)
                 (newGridLine (generateGridLineId CHR ''v'' r c) Vertical r c)) [0..<Suc C]"
  let ?hs = "concat (map (\<lambda>r. map (\<lambda>c. ((CHR ''h'', r, c),
                 newGridLine (CHR ''h'', r, c) Horizontal r c)) [0..<C]) [0..<Suc R])"
  let ?vs = "concat (map (\<lambda>r. map (\<lambda>c. ((CHR ''v'', r, c),
                 newGridLine (CHR ''v'', r, c) Vertical r c)) [0..<Suc C]) [0..<R])"
  let ?g1 = "?g0\<lparr>gridLines := gridLines ?g0 @ ?hs\<rparr>"
  have h: "fold ?H [0..<Suc R] ?g0 = ?g1"
    by (rule fold_rows_fresh) simp_all
  have v: "fold ?V [0..<R] ?g1 = ?g1\<lparr>gridLines := gridLines ?g1 @ ?vs\<rparr>"
    by (rule fold_rows_fresh) (auto simp: image_iff)
  have "initializeGridLines ?g0 = fold ?V [0..<R] (fold ?H [0..<Suc R] ?g0)"
    unfolding initializeGridLines_def Let_def by (simp del: upt_Suc)
  also have "\<dots> = fold ?V [0..<R] ?g1" by (simp only: h)
  also have "\<dots> = ?g1\<lparr>gridLines := gridLines ?g1 @ ?vs\<rparr>" by (rule v)
  finally have "initializeGridLines ?g0 = ?g0\<lparr>gridLines := ?hs @ ?vs\<rparr>" by simp
  then show ?thesis
    by (simp add: allLineIds_def horizontalIds_def verticalIds_def map_concat comp_def
          newLineOf_def del: upt_Suc)
qed


lemma connectLine_newLineOf:
  "connectLine g (newLineOf i) = lineOf (rows g) (cols g) False i"
  by (cases i)
     (auto simp: connectLine_def newLineOf_def newGridLine_def lineOf_def connectionsOf_def
        generateGridLineId_def Let_def fun_eq_iff split: direction.splits)

lemma computeConnections_lines:
  "computeConnections (initializeGridLines
       \<lparr>rows = R, cols = C, gridLines = [], usedDirections = u\<rparr>)
     = \<lparr>rows = R, cols = C, gridLines = linesOf R C (\<lambda>i. False), usedDirections = u\<rparr>"
  by (simp add: initializeGridLines_lines computeConnections_def linesOf_def comp_def
        connectLine_newLineOf)

lemma set_horizontalIds:
  "set (horizontalIds R C) = {(CHR ''h'', r, c) | r c. r \<le> R \<and> c < C}"
  by (auto simp: horizontalIds_def less_Suc_eq_le simp del: upt_Suc)

lemma set_verticalIds:
  "set (verticalIds R C) = {(CHR ''v'', r, c) | r c. r < R \<and> c \<le> C}"
  by (auto simp: verticalIds_def less_Suc_eq_le simp del: upt_Suc)

lemma distinct_row_ids:
  "distinct rs \<Longrightarrow> distinct cs
   \<Longrightarrow> distinct (concat (map (\<lambda>r. map (\<lambda>c. (t, r, c)) cs) rs))"
  by (induction rs) (auto simp: distinct_map inj_on_def)

lemma distinct_allLineIds: "distinct (allLineIds R C)"
  unfolding allLineIds_def distinct_append
  by (auto simp: set_horizontalIds set_verticalIds)
     (simp_all add: horizontalIds_def verticalIds_def distinct_row_ids del: upt_Suc)

lemma map_of_keyed:
  "map_of (map (\<lambda>k. (k, f k)) ks) i = (if i \<in> set ks then Some (f i) else None)"
  by (induction ks) auto

lemma update_keyed:
  "i \<in> set ks \<Longrightarrow> distinct ks
   \<Longrightarrow> AList.update i v (map (\<lambda>k. (k, f k)) ks) = map (\<lambda>k. (k, if k = i then v else f k)) ks"
  by (induction ks) auto

lemma getGridLine_linesOf:
  "gridLines g = linesOf R C m
   \<Longrightarrow> getGridLine g i = (if i \<in> set (allLineIds R C) then Some (lineOf R C (m i) i) else None)"
  by (simp add: getGridLine_def linesOf_def map_of_keyed)

lemma setMirror_linesOf:
  assumes "gridLines g = linesOf R C m"
  shows "setMirror i b g = g\<lparr>gridLines := linesOf R C (m(i := b))\<rparr>"
proof (cases "i \<in> set (allLineIds R C)")
  case True
  have "AList.update i (lineOf R C b i) (linesOf R C m) = linesOf R C (m(i := b))"
    unfolding linesOf_def
    by (simp add: update_keyed [OF True distinct_allLineIds])
  moreover have "(lineOf R C (m i) i)\<lparr>isMirror := b\<rparr> = lineOf R C b i"
    by (simp add: lineOf_def)
  ultimately show ?thesis
    using assms True by (simp add: setMirror_def getGridLine_linesOf [OF assms])
next
  case False
  then have "linesOf R C (m(i := b)) = linesOf R C m"
    by (auto simp: linesOf_def)
  then show ?thesis
    using assms False by (simp add: setMirror_def getGridLine_linesOf [OF assms])
qed

lemma fold_setMirror_True:
  "gridLines g = linesOf R C m
   \<Longrightarrow> fold (\<lambda>x. setMirror (f x) True) xs g
       = g\<lparr>gridLines := linesOf R C (\<lambda>i. m i \<or> i \<in> f ` set xs)\<rparr>"
proof (induction xs arbitrary: g m)
  case Nil
  then show ?case by simp
next
  case (Cons x xs)
  let ?g1 = "g\<lparr>gridLines := linesOf R C (m(f x := True))\<rparr>"
  have s: "setMirror (f x) True g = ?g1" by (rule setMirror_linesOf [OF Cons.prems])
  have "gridLines ?g1 = linesOf R C (m(f x := True))" by simp
  from Cons.IH [OF this]
  have "fold (\<lambda>x. setMirror (f x) True) xs ?g1
        = ?g1\<lparr>gridLines := linesOf R C (\<lambda>i. (m(f x := True)) i \<or> i \<in> f ` set xs)\<rparr>" .
  moreover have "(\<lambda>i. (m(f x := True)) i \<or> i \<in> f ` set xs)
                 = (\<lambda>i. m i \<or> i \<in> f ` set (x # xs))"
    by (auto simp: fun_eq_iff)
  ultimately show ?case using s by simp
qed

lemma linesOf_cong:
  "(\<And>i. i \<in> set (allLineIds R C) \<Longrightarrow> m i = m' i) \<Longrightarrow> linesOf R C m = linesOf R C m'"
  by (simp add: linesOf_def)

lemma mem_allLineIds:
  "i \<in> set (allLineIds R C)
   \<longleftrightarrow> (fst i = CHR ''h'' \<and> fst (snd i) \<le> R \<and> snd (snd i) < C)
       \<or> (fst i = CHR ''v'' \<and> fst (snd i) < R \<and> snd (snd i) \<le> C)"
  by (cases i) (auto simp: allLineIds_def set_horizontalIds set_verticalIds)

lemma placeBoundaryMirrors_lines:
  assumes "gridLines g = linesOf (rows g) (cols g) (\<lambda>i. False)"
  shows "placeBoundaryMirrors g
         = g\<lparr>gridLines := linesOf (rows g) (cols g) (isBoundaryId (rows g) (cols g))\<rparr>"
proof -
  let ?R = "rows g" and ?C = "cols g"
  let ?m1 = "\<lambda>i. False \<or> i \<in> (\<lambda>c. generateGridLineId CHR ''h'' 0 c) ` set [0..<?C]"
  let ?m2 = "\<lambda>i. ?m1 i \<or> i \<in> (\<lambda>c. generateGridLineId CHR ''h'' ?R c) ` set [0..<?C]"
  let ?m3 = "\<lambda>i. ?m2 i \<or> i \<in> (\<lambda>r. generateGridLineId CHR ''v'' r 0) ` set [0..<?R]"
  let ?m4 = "\<lambda>i. ?m3 i \<or> i \<in> (\<lambda>r. generateGridLineId CHR ''v'' r ?C) ` set [0..<?R]"
  let ?g1 = "g\<lparr>gridLines := linesOf ?R ?C ?m1\<rparr>"
  let ?g2 = "g\<lparr>gridLines := linesOf ?R ?C ?m2\<rparr>"
  let ?g3 = "g\<lparr>gridLines := linesOf ?R ?C ?m3\<rparr>"
  let ?g4 = "g\<lparr>gridLines := linesOf ?R ?C ?m4\<rparr>"
  have 1: "fold (\<lambda>c. setMirror (generateGridLineId CHR ''h'' 0 c) True) [0..<?C] g = ?g1"
    by (rule fold_setMirror_True [OF assms])
  have 2: "fold (\<lambda>c. setMirror (generateGridLineId CHR ''h'' ?R c) True) [0..<?C] ?g1 = ?g2"
    using fold_setMirror_True [of ?g1 ?R ?C ?m1 "\<lambda>c. generateGridLineId CHR ''h'' ?R c" "[0..<?C]"]
    by simp
  have 3: "fold (\<lambda>r. setMirror (generateGridLineId CHR ''v'' r 0) True) [0..<?R] ?g2 = ?g3"
    using fold_setMirror_True [of ?g2 ?R ?C ?m2 "\<lambda>r. generateGridLineId CHR ''v'' r 0" "[0..<?R]"]
    by simp
  have 4: "fold (\<lambda>r. setMirror (generateGridLineId CHR ''v'' r ?C) True) [0..<?R] ?g3 = ?g4"
    using fold_setMirror_True [of ?g3 ?R ?C ?m3 "\<lambda>r. generateGridLineId CHR ''v'' r ?C" "[0..<?R]"]
    by simp
  have "placeBoundaryMirrors g = ?g4"
    unfolding placeBoundaryMirrors_def Let_def by (simp only: 1 2 3 4)
  moreover have "linesOf ?R ?C ?m4 = linesOf ?R ?C (isBoundaryId ?R ?C)"
    by (rule linesOf_cong)
       (auto simp: mem_allLineIds isBoundaryId_def generateGridLineId_def image_iff)
  ultimately show ?thesis by simp
qed

lemma fold_emptySets:
  "fold (\<lambda>e g'. g'\<lparr>usedDirections := (usedDirections g')(fst e \<mapsto> {})\<rparr>) es g
     = g\<lparr>usedDirections := (\<lambda>k. if k \<in> fst ` set es then Some {} else usedDirections g k)\<rparr>"
proof (induction es arbitrary: g)
  case Nil
  then show ?case by simp
next
  case (Cons e es)
  let ?F = "\<lambda>e g'. g'\<lparr>usedDirections := (usedDirections g')(fst e \<mapsto> {})\<rparr>"
  have "fold ?F (e # es) g = fold ?F es (?F e g)" by simp
  also have "\<dots> = (?F e g)\<lparr>usedDirections :=
                 (\<lambda>k. if k \<in> fst ` set es then Some {} else usedDirections (?F e g) k)\<rparr>"
    by (rule Cons.IH)
  also have "\<dots> = g\<lparr>usedDirections :=
                 (\<lambda>k. if k \<in> fst ` set (e # es) then Some {} else usedDirections g k)\<rparr>"
    by (cases g) (auto simp: fun_eq_iff)
  finally show ?case .
qed

lemma seedBoundary_eq:
  assumes "usedDirections g (fst e) = Some S"
  shows "seedBoundary e g
         = g\<lparr>usedDirections := (usedDirections g)(fst e \<mapsto> S \<union> seedOf (rows g) (cols g) (snd e))\<rparr>"
proof -
  have idem: "g\<lparr>usedDirections := (usedDirections g)(fst e \<mapsto> S)\<rparr> = g"
    using assms by (simp add: fun_upd_idem)
  show ?thesis
    using assms idem
    by (auto simp: seedBoundary_def Let_def isBoundaryGridLine_def addUsed_def seedOf_def
          insert_commute)
qed

lemma fold_seedBoundary:
  "distinct (map fst es) \<Longrightarrow> \<forall>k\<in>fst ` set es. usedDirections g k = Some {}
   \<Longrightarrow> fold seedBoundary es g
       = g\<lparr>usedDirections := (\<lambda>k. case map_of es k of
                                      None \<Rightarrow> usedDirections g k
                                    | Some l \<Rightarrow> Some (seedOf (rows g) (cols g) l))\<rparr>"
proof (induction es arbitrary: g)
  case Nil
  then show ?case by simp
next
  case (Cons e es)
  let ?g1 = "g\<lparr>usedDirections :=
                 (usedDirections g)(fst e \<mapsto> {} \<union> seedOf (rows g) (cols g) (snd e))\<rparr>"
  have e: "usedDirections g (fst e) = Some {}" using Cons.prems by simp
  have s: "seedBoundary e g = ?g1" by (rule seedBoundary_eq [OF e])
  have d: "distinct (map fst es)" and n: "fst e \<notin> fst ` set es"
    using Cons.prems by auto
  have n': "(fst e, b) \<notin> set es" for b
  proof
    assume "(fst e, b) \<in> set es"
    then have "fst (fst e, b) \<in> fst ` set es" by (rule imageI)
    then show False using n by simp
  qed
  have pre: "\<forall>k\<in>fst ` set es. usedDirections ?g1 k = Some {}"
    using Cons.prems n' by auto
  have none: "map_of es (fst e) = None" using n by (simp add: map_of_eq_None_iff)
  have "fold seedBoundary (e # es) g = fold seedBoundary es ?g1" using s by simp
  also have "\<dots> = ?g1\<lparr>usedDirections := (\<lambda>k. case map_of es k of
                                      None \<Rightarrow> usedDirections ?g1 k
                                    | Some l \<Rightarrow> Some (seedOf (rows ?g1) (cols ?g1) l))\<rparr>"
    by (rule Cons.IH [OF d pre])
  also have "\<dots> = g\<lparr>usedDirections := (\<lambda>k. case map_of (e # es) k of
                                      None \<Rightarrow> usedDirections g k
                                    | Some l \<Rightarrow> Some (seedOf (rows g) (cols g) l))\<rparr>"
    using none by (cases g; cases e) (auto simp: fun_eq_iff split: option.splits)
  finally show ?case .
qed

lemma seedOf_lineOf:
  "i \<in> set (allLineIds R C) \<Longrightarrow> seedOf R C (lineOf R C m i) = preSeeded R C i"
  by (auto simp: seedOf_def lineOf_def preSeeded_def mem_allLineIds)

lemma initializeUsedDirections_linesOf:
  assumes "gridLines g = linesOf (rows g) (cols g) m"
  shows "initializeUsedDirections g
         = g\<lparr>usedDirections := (\<lambda>k. if k \<in> set (allLineIds (rows g) (cols g))
                                     then Some (preSeeded (rows g) (cols g) k)
                                     else usedDirections g k)\<rparr>"
proof -
  let ?R = "rows g" and ?C = "cols g"
  let ?es = "gridLines g"
  let ?g1 = "g\<lparr>usedDirections := (\<lambda>k. if k \<in> fst ` set ?es then Some {} else usedDirections g k)\<rparr>"
  have keys: "map fst ?es = allLineIds ?R ?C"
    using assms by (simp add: linesOf_def comp_def)
  then have keyset: "fst ` set ?es = set (allLineIds ?R ?C)"
    by (metis set_map)
  have d: "distinct (map fst (gridLines ?g1))"
    using keys distinct_allLineIds by simp
  have pre: "\<forall>k\<in>fst ` set (gridLines ?g1). usedDirections ?g1 k = Some {}" by simp
  have "initializeUsedDirections g = fold seedBoundary (gridLines ?g1) ?g1"
    by (simp add: initializeUsedDirections_def fold_emptySets Let_def)
  also have "\<dots> = ?g1\<lparr>usedDirections := (\<lambda>k. case map_of (gridLines ?g1) k of
                                      None \<Rightarrow> usedDirections ?g1 k
                                    | Some l \<Rightarrow> Some (seedOf (rows ?g1) (cols ?g1) l))\<rparr>"
    by (rule fold_seedBoundary [OF d pre])
  also have "\<dots> = g\<lparr>usedDirections := (\<lambda>k. if k \<in> set (allLineIds ?R ?C)
                                     then Some (preSeeded ?R ?C k)
                                     else usedDirections g k)\<rparr>"
    using keyset
    by (auto simp: fun_eq_iff assms linesOf_def map_of_keyed seedOf_lineOf intro!: grid.equality)
  finally show ?thesis .
qed

lemma Grid_new_eq:
  "Grid_new R C
     = \<lparr>rows = R, cols = C, gridLines = linesOf R C (isBoundaryId R C),
        usedDirections = (\<lambda>k. if k \<in> set (allLineIds R C)
                                then Some (preSeeded R C k) else None)\<rparr>"
proof -
  let ?g2 = "\<lparr>rows = R, cols = C, gridLines = linesOf R C (\<lambda>i. False),
               usedDirections = Map.empty\<rparr>"
  let ?g3 = "?g2\<lparr>gridLines := linesOf R C (isBoundaryId R C)\<rparr>"
  have p: "placeBoundaryMirrors ?g2 = ?g3"
    using placeBoundaryMirrors_lines [of ?g2] by simp
  have "Grid_new R C = initializeUsedDirections ?g3"
    by (simp only: Grid_new_def computeConnections_lines p)
  also have "\<dots> = ?g3\<lparr>usedDirections := (\<lambda>k. if k \<in> set (allLineIds (rows ?g3) (cols ?g3))
                                     then Some (preSeeded (rows ?g3) (cols ?g3) k)
                                     else usedDirections ?g3 k)\<rparr>"
    by (rule initializeUsedDirections_linesOf) simp
  finally show ?thesis by (simp cong: if_cong)
qed

section \<open>The invariant of the reachable grids\<close>

lemma linesOf_mirrorAt:
  "gridLines g = linesOf R C m \<Longrightarrow> i \<in> set (allLineIds R C) \<Longrightarrow> mirrorAt g i = m i"
  by (simp add: mirrorAt_def getGridLine_linesOf lineOf_def)

lemma wellFormedI:
  assumes "1 \<le> rows g" "1 \<le> cols g" "gridLines g = linesOf (rows g) (cols g) m"
    and "\<And>i. i \<in> set (allLineIds (rows g) (cols g)) \<Longrightarrow> isBoundaryId (rows g) (cols g) i \<Longrightarrow> m i"
    and "set (allLineIds (rows g) (cols g)) \<subseteq> dom (usedDirections g)"
  shows "wellFormed g"
proof -
  have "linesOf (rows g) (cols g) m = linesOf (rows g) (cols g) (mirrorAt g)"
    by (rule linesOf_cong) (simp add: linesOf_mirrorAt [OF assms(3)])
  then show ?thesis
    unfolding wellFormed_def
    using assms by (simp add: linesOf_mirrorAt [OF assms(3)])
qed

lemma wellFormed_Grid_new: "1 \<le> R \<Longrightarrow> 1 \<le> C \<Longrightarrow> wellFormed (Grid_new R C)"
  by (rule wellFormedI [where m = "isBoundaryId R C"]) (auto simp: Grid_new_eq)

lemma wellFormed_lines:
  "wellFormed g \<Longrightarrow> gridLines g = linesOf (rows g) (cols g) (mirrorAt g)"
  by (simp add: wellFormed_def)

lemma wellFormed_setMirror:
  assumes "wellFormed g" and "\<not> isBoundaryId (rows g) (cols g) i \<or> b"
  shows "wellFormed (setMirror i b g)"
proof -
  have eq: "setMirror i b g = g\<lparr>gridLines := linesOf (rows g) (cols g) ((mirrorAt g)(i := b))\<rparr>"
    by (rule setMirror_linesOf [OF wellFormed_lines [OF assms(1)]])
  show ?thesis
    unfolding eq
    by (rule wellFormedI [where m = "(mirrorAt g)(i := b)"])
       (use assms in \<open>auto simp: wellFormed_def\<close>)
qed

lemma isBoundaryGridLine_lineOf:
  "i \<in> set (allLineIds (rows g) (cols g))
   \<Longrightarrow> isBoundaryGridLine g (Some (lineOf (rows g) (cols g) m i)) = isBoundaryId (rows g) (cols g) i"
  by (auto simp: isBoundaryGridLine_def lineOf_def isBoundaryId_def mem_allLineIds)

lemma wellFormed_getGridLine:
  "wellFormed g \<Longrightarrow> getGridLine g i
     = (if i \<in> set (allLineIds (rows g) (cols g))
        then Some (lineOf (rows g) (cols g) (mirrorAt g i) i) else None)"
  by (rule getGridLine_linesOf [OF wellFormed_lines])

lemma sameLines_mirrorAt: "sameLines g g' \<Longrightarrow> mirrorAt g' = mirrorAt g"
  by (simp add: fun_eq_iff mirrorAt_def getGridLine_def sameLines_def)

lemma wellFormed_sameLines:
  "wellFormed g \<Longrightarrow> sameLines g g' \<Longrightarrow> wellFormed g'"
  using sameLines_mirrorAt [of g g']
  by (simp add: wellFormed_def sameLines_def)

lemma sameLines_refl: "sameLines g g"
  by (simp add: sameLines_def)

lemma sameLines_trans: "sameLines g g' \<Longrightarrow> sameLines g' g'' \<Longrightarrow> sameLines g g''"
  by (simp add: sameLines_def)

lemma sameLines_markDirectionUsed: "sameLines g (markDirectionUsed i d g)"
  by (auto simp: sameLines_def markDirectionUsed_def split: option.splits)

lemma sameLines_iteration: "sameLines g (iteration_grid (buildCurve_iteration cur d c g))"
proof -
  have "sameLines g (markDirectionUsed n d2 (markDirectionUsed n d1 g))" for n d1 d2
    by (rule sameLines_trans [OF sameLines_markDirectionUsed sameLines_markDirectionUsed])
  then show ?thesis
    by (auto simp: buildCurve_iteration_def Let_def sameLines_refl
          split: sum.splits option.splits)
qed

lemma sameLines_buildCurve_loop:
  "sameLines g (snd (snd (buildCurve_loop cur d c g)))"
proof (induction cur d c g rule: buildCurve_loop.induct)
  case (1 cur d c g)
  show ?case
  proof (cases "length (curve_gridLines c) < MAX_SEGMENTS")
    case False
    then show ?thesis by (simp add: buildCurve_loop.simps sameLines_refl)
  next
    case True
    show ?thesis
    proof (cases "buildCurve_iteration cur d c g")
      case (Done r0 c0 g0)
      with True sameLines_iteration [of g cur d c] show ?thesis
        by (simp add: buildCurve_loop.simps)
    next
      case (Next cur1 d1 c1 g1)
      with sameLines_iteration [of g cur d c] have "sameLines g g1" by simp
      with "1.IH" [OF True Next] Next True show ?thesis
        by (simp add: buildCurve_loop.simps [of cur d c g] sameLines_trans)
    qed
  qed
qed

lemma sameLines_buildCurve: "sameLines g (snd (snd (buildCurve c g)))"
  using sameLines_trans [OF sameLines_markDirectionUsed sameLines_buildCurve_loop]
  by (auto simp: buildCurve_def sameLines_refl split: list.splits)

lemma sameLines_findNextCurve_scan: "sameLines g (snd (findNextCurve_scan es g))"
proof (induction es arbitrary: g)
  case Nil
  then show ?case by (simp add: sameLines_refl)
next
  case (Cons e es)
  obtain i l where e: "e = (i, l)" by (cases e)
  let ?b = "buildCurve (MirrorCurve_new l (hd (getUnusedDirections g i))) g"
  have b: "sameLines g (snd (snd ?b))" by (rule sameLines_buildCurve)
  have "sameLines g (snd (findNextCurve_scan es (snd (snd ?b))))"
    by (rule sameLines_trans [OF b Cons.IH])
  with b Cons.IH [of g] show ?case
    unfolding e
    by (cases ?b) (auto simp: Let_def split: sum.splits)
qed

lemma sameLines_findNextCurve: "sameLines g (snd (findNextCurve g))"
  by (simp add: findNextCurve_def sameLines_findNextCurve_scan)


lemma sameLines_findAllCurves_loop:
  assumes "findAllCurves_loop cs g = Some r"
  shows "sameLines g (snd r)"
proof (rule findAllCurves_loop.raw_induct
         [where P = "\<lambda>cs g r. sameLines g (snd r)", OF _ assms])
  fix loop :: "curve list \<Rightarrow> grid \<Rightarrow> (curve list \<times> grid) option"
  fix cs g r
  assume IH: "\<And>cs g r. loop cs g = Some r \<Longrightarrow> sameLines g (snd r)"
  assume step: "(case findNextCurve g of
                   (None, g') \<Rightarrow> Some (cs, g')
                 | (Some c, g') \<Rightarrow> loop (cs @ [c]) g') = Some r"
  show "sameLines g (snd r)"
  proof (cases "findNextCurve g")
    case (Pair oc g1)
    have s1: "sameLines g g1" using sameLines_findNextCurve [of g] Pair by simp
    show ?thesis
    proof (cases oc)
      case None
      with step Pair s1 show ?thesis by auto
    next
      case (Some c)
      with step Pair have "loop (cs @ [c]) g1 = Some r" by simp
      from IH [OF this] s1 show ?thesis by (rule sameLines_trans [rotated])
    qed
  qed
qed

lemma sameLines_resetUsedDirections:
  "wellFormed g \<Longrightarrow> wellFormed (resetUsedDirections g)"
proof -
  assume wf: "wellFormed g"
  have eq: "resetUsedDirections g
         = g\<lparr>usedDirections := (\<lambda>k. if k \<in> set (allLineIds (rows g) (cols g))
                                     then Some (preSeeded (rows g) (cols g) k)
                                     else usedDirections g k)\<rparr>"
    unfolding resetUsedDirections_def
    by (rule initializeUsedDirections_linesOf [OF wellFormed_lines [OF wf]])
  have m: "mirrorAt (resetUsedDirections g) = mirrorAt g"
    by (simp add: eq fun_eq_iff mirrorAt_def getGridLine_def)
  show ?thesis
    using wf unfolding wellFormed_def m
    by (auto simp: eq)
qed

lemma wellFormed_randomizeMirrors_loop:
  "wellFormed g \<Longrightarrow> wellFormed (randomizeMirrors_loop p rnd es n g)
     \<and> rows (randomizeMirrors_loop p rnd es n g) = rows g
     \<and> cols (randomizeMirrors_loop p rnd es n g) = cols g"
proof (induction es arbitrary: n g)
  case Nil
  then show ?case by simp
next
  case (Cons e es)
  obtain i l where e: "e = (i, l)" by (cases e)
  show ?case
  proof (cases "isBoundaryId (rows g) (cols g) i")
    case True
    then show ?thesis
      using Cons.IH [OF Cons.prems, of n]
      by (simp add: e isBoundaryId_def parseGridLineId_def Let_def)
  next
    case False
    let ?g1 = "setMirror i (\<not> isMirror l) g"
    have wf1: "wellFormed ?g1"
      using Cons.prems False by (simp add: wellFormed_setMirror)
    have dims: "rows ?g1 = rows g" "cols ?g1 = cols g"
      by (simp_all add: setMirror_linesOf [OF wellFormed_lines [OF Cons.prems]])
    show ?thesis
      using False Cons.IH [OF Cons.prems, of "Suc n"] Cons.IH [OF wf1, of "Suc n"] dims
      by (auto simp: e isBoundaryId_def parseGridLineId_def Let_def)
  qed
qed

lemma wellFormed_randomizeMirrors:
  "wellFormed g \<Longrightarrow> wellFormed (snd (randomizeMirrors p rnd g))"
  by (simp add: randomizeMirrors_def wellFormed_randomizeMirrors_loop)

lemma wellFormed_dispatch:
  assumes "wellFormed (grid s)" and "validAction a"
  shows "wellFormed (grid (dispatch rnd a s))"
proof (cases a)
  case (UPDATE_GRID r c)
  with assms show ?thesis by (simp add: wellFormed_Grid_new)
next
  case RANDOM
  with wellFormed_randomizeMirrors [OF assms(1), of "15 / 100" rnd] show ?thesis
    by (auto split: prod.splits sum.splits)
next
  case RESET
  with assms show ?thesis by (simp add: sameLines_resetUsedDirections)
next
  case REDRAW
  with assms show ?thesis by (simp add: sameLines_resetUsedDirections)
next
  case (TOGGLE_MIRROR i)
  show ?thesis
  proof (cases "i \<in> set (allLineIds (rows (grid s)) (cols (grid s)))")
    case False
    with assms TOGGLE_MIRROR show ?thesis
      by (simp add: wellFormed_getGridLine)
  next
    case True
    with assms TOGGLE_MIRROR show ?thesis
      by (simp add: wellFormed_getGridLine isBoundaryGridLine_lineOf wellFormed_setMirror)
  qed
qed

lemma reachable_wellFormed: "reachable g \<Longrightarrow> wellFormed g"
proof (induction rule: reachable.induct)
  case (constructed r c)
  then show ?case by (rule wellFormed_Grid_new)
next
  case (dispatched s a rnd)
  then show ?case by (simp add: wellFormed_dispatch)
next
  case (randomized g p rnd)
  then show ?case by (simp add: wellFormed_randomizeMirrors)
next
  case (nextCurve g)
  then show ?case using wellFormed_sameLines [OF _ sameLines_findNextCurve] by blast
next
  case (allCurves g cs g')
  from allCurves.hyps(2) have "findAllCurves_loop [] (resetUsedDirections g) = Some (cs, g')"
    by (simp add: findAllCurves_def)
  from sameLines_findAllCurves_loop [OF this]
  have "sameLines (resetUsedDirections g) g'" by simp
  with sameLines_resetUsedDirections [OF allCurves.IH] show ?case
    by (rule wellFormed_sameLines)
qed

section \<open>Reflection\<close>

lemma getReflectedDirection_eq:
  "getGridLine g e = Some l
   \<Longrightarrow> getReflectedDirection g e d = reflectionOf (line_type l) (isMirror l) d"
  by (cases "line_type l"; cases d) (simp_all add: getReflectedDirection_def reflectionOf_def)

text \<open>
  C3. For every grid line \<open>e\<close> of the grid and every direction \<open>d\<close>,
  \<open>getReflectedDirection\<close> returns \<open>d\<close> when \<open>e\<close> is not a mirror, swaps NW with SW and
  NE with SE when \<open>e\<close> is a horizontal mirror, and swaps NW with NE and SW with SE when
  \<open>e\<close> is a vertical mirror: the result is the specification's table applied to the
  orientation and the mirror flag of \<open>e\<close>, whatever its row and column.
\<close>

theorem getReflectedDirection_orientation:
  assumes "getGridLine g e = Some l"
  shows "getReflectedDirection g e d = reflectionOf (line_type l) (isMirror l) d"
  using assms by (rule getReflectedDirection_eq)

theorem getReflectedDirection_orientation_witness:
  "getGridLine (Grid_new 1 1) (CHR ''h'', 0, 0) \<noteq> None
   \<and> getReflectedDirection (Grid_new 1 1) (CHR ''h'', 0, 0) NW = SW
   \<and> getReflectedDirection (Grid_new 1 1) (CHR ''v'', 0, 1) NW = NE"
proof -
  obtain l where h: "getGridLine (Grid_new 1 1) (CHR ''h'', 0, 0) = Some l"
    and hl: "line_type l = Horizontal" "isMirror l"
    by (simp add: grid_defs upt_rec Let_def)
  obtain l' where v: "getGridLine (Grid_new 1 1) (CHR ''v'', 0, 1) = Some l'"
    and vl: "line_type l' = Vertical" "isMirror l'"
    by (simp add: grid_defs upt_rec Let_def)
  show ?thesis
    using getReflectedDirection_orientation [OF h, of NW]
      getReflectedDirection_orientation [OF v, of NW] h hl vl
    by (simp add: reflectionOf_def)
qed

section \<open>Marking of used directions during a trace\<close>

text \<open>
  C2, as the specification states it, fails at a mirror. On the 1 x 2 grid whose interior
  line \<open>v_0_1\<close> is a mirror, the first trace appends the step \<open>(v_0_1, NW)\<close>; the
  opposite of the outgoing direction NW is SE, and SE is not marked used on \<open>v_0_1\<close>
  even when the whole trace has returned.
\<close>

theorem marks_opposite_of_outgoing_counterexample:
  "steps (the (fst (findNextCurve grid_1x2_mirror)))
     = [((CHR ''h'', 0, 0), SW), ((CHR ''v'', 0, 0), SE), ((CHR ''h'', 1, 0), NE),
        ((CHR ''v'', 0, 1), NW), ((CHR ''h'', 0, 0), SW)]
   \<and> oppositeDirection NW = SE
   \<and> \<not> isDirectionUsed (snd (findNextCurve grid_1x2_mirror)) (CHR ''v'', 0, 1) SE"
  by (simp add: grid_1x2_mirror_eval getGridLine_def curve_defs isDirectionUsed_def steps_def Let_def)

text \<open>
  C2, amended. In every pass through the loop body of \<open>buildCurve\<close> that finds a next
  grid line, the step (next line, outgoing direction) is appended to the curve, and the
  outgoing direction and the opposite of the incoming direction (the direction the
  walk had before the line) are marked used on the next line. The second mark is
  the opposite of the outgoing direction when the next line is not a mirror.
\<close>

theorem buildCurve_iteration_marks:
  assumes "getAdjacentGridLine g (line_id cur) d = Inr (Some n)"
    and "getGridLine g n = Some nl"
    and "usedDirections g n = Some U"
  shows "curve_gridLines (iteration_curve (buildCurve_iteration cur d c g))
           = curve_gridLines c @ [nl]
       \<and> directions (iteration_curve (buildCurve_iteration cur d c g))
           = directions c @ [if isMirror nl then getReflectedDirection g n d else d]
       \<and> usedDirections (iteration_grid (buildCurve_iteration cur d c g)) n
           = Some (U \<union> {if isMirror nl then getReflectedDirection g n d else d,
                         oppositeDirection d})
       \<and> (\<not> isMirror nl \<longrightarrow>
            oppositeDirection d
              = oppositeDirection (if isMirror nl then getReflectedDirection g n d else d))"
  using assms
  by (auto simp: buildCurve_iteration_def addSegment_def markDirectionUsed_def Let_def)

theorem buildCurve_iteration_marks_witness:
  "usedDirections (iteration_grid (buildCurve_iteration
       (the (getGridLine grid_1x2_mirror (CHR ''h'', 1, 0))) NE
       (MirrorCurve_new (the (getGridLine grid_1x2_mirror (CHR ''h'', 1, 0))) NE)
       grid_1x2_mirror)) (CHR ''v'', 0, 1)
     = Some {NW, SW}"
proof -
  let ?g = "grid_1x2_mirror"
  let ?cur = "the (getGridLine ?g (CHR ''h'', 1, 0))"
  obtain nl where nl: "getGridLine ?g (CHR ''v'', 0, 1) = Some nl"
    and m: "isMirror nl" "line_type nl = Vertical"
    by (simp add: grid_1x2_mirror_eval getGridLine_def)
  have adj: "getAdjacentGridLine ?g (line_id ?cur) NE = Inr (Some (CHR ''v'', 0, 1))"
    by (simp add: grid_1x2_mirror_eval getGridLine_def getAdjacentGridLine_def)
  have u: "usedDirections ?g (CHR ''v'', 0, 1) = Some {}"
    by (simp add: grid_1x2_mirror_eval)
  have r: "getReflectedDirection ?g (CHR ''v'', 0, 1) NE = NW"
    using nl m by (simp add: getReflectedDirection_def)
  from buildCurve_iteration_marks [OF adj nl u, of "MirrorCurve_new ?cur NE"] m r
  show ?thesis by (simp add: oppositeDirection_def insert_commute)
qed

section \<open>Outcome of a trace\<close>

lemma iteration_Done_flags:
  assumes "\<not> isClosed c" "\<not> leftGrid c" "buildCurve_iteration cur d c g = Done r c' g'"
  shows "(r = Inr True \<and> isClosed c' \<noteq> leftGrid c')
         \<or> (r = Inr False \<and> \<not> isClosed c' \<and> \<not> leftGrid c')"
  using assms
  by (auto simp: buildCurve_iteration_def getAdjacentGridLine_def addSegment_def Let_def
           split: sum.splits option.splits if_splits)

lemma iteration_Next_flags:
  assumes "\<not> isClosed c" "\<not> leftGrid c" "buildCurve_iteration cur d c g = Next cur' d' c' g'"
  shows "\<not> isClosed c' \<and> \<not> leftGrid c'"
  using assms
  by (auto simp: buildCurve_iteration_def getAdjacentGridLine_def addSegment_def Let_def
           split: sum.splits option.splits if_splits)

lemma buildCurve_loop_flags:
  "\<not> isClosed c \<Longrightarrow> \<not> leftGrid c \<Longrightarrow> buildCurve_loop cur d c g = (r, c', g')
   \<Longrightarrow> (r = Inr True \<and> isClosed c' \<noteq> leftGrid c')
       \<or> (r = Inr False \<and> \<not> isClosed c' \<and> \<not> leftGrid c')"
proof (induction cur d c g rule: buildCurve_loop.induct)
  case (1 cur d c g)
  show ?case
  proof (cases "length (curve_gridLines c) < MAX_SEGMENTS")
    case False
    with "1.prems" show ?thesis by (simp add: buildCurve_loop.simps)
  next
    case True
    show ?thesis
    proof (cases "buildCurve_iteration cur d c g")
      case (Done r0 c0 g0)
      with True "1.prems" have "r0 = r" "c0 = c'" by (simp_all add: buildCurve_loop.simps)
      with Done iteration_Done_flags [OF "1.prems"(1,2)] show ?thesis by blast
    next
      case (Next cur1 d1 c1 g1)
      with True "1.prems" have eq: "buildCurve_loop cur1 d1 c1 g1 = (r, c', g')"
        by (simp add: buildCurve_loop.simps)
      from iteration_Next_flags [OF "1.prems"(1,2) Next]
      have "\<not> isClosed c1" "\<not> leftGrid c1" by simp_all
      with "1.IH" [OF True Next] eq show ?thesis by blast
    qed
  qed
qed

text \<open>
  C4. A curve as the constructor leaves it (neither closed nor left the grid) on which
  \<open>buildCurve\<close> returns \<open>true\<close> has exactly one of \<open>isClosed\<close> and \<open>leftGrid\<close> set; the only
  other outcome is that \<open>buildCurve\<close> returns \<open>false\<close>, and then both flags are still
  \<open>false\<close>.
\<close>

theorem buildCurve_closed_xor_leftGrid:
  assumes "\<not> isClosed c" and "\<not> leftGrid c" and "curve_gridLines c \<noteq> []"
    and "buildCurve c g = (r, c', g')"
  shows "(r = Inr True \<and> isClosed c' \<noteq> leftGrid c')
         \<or> (r = Inr False \<and> \<not> isClosed c' \<and> \<not> leftGrid c')"
  using assms buildCurve_loop_flags [OF assms(1,2)]
  by (auto simp: buildCurve_def split: list.splits)

theorem buildCurve_closed_xor_leftGrid_witness:
  "fst (buildCurve (MirrorCurve_new (the (getGridLine grid_1x1 (CHR ''h'', 0, 0))) SW) grid_1x1)
     = Inr True
   \<and> isClosed (fst (snd (buildCurve
        (MirrorCurve_new (the (getGridLine grid_1x1 (CHR ''h'', 0, 0))) SW) grid_1x1)))
   \<and> \<not> leftGrid (fst (snd (buildCurve
        (MirrorCurve_new (the (getGridLine grid_1x1 (CHR ''h'', 0, 0))) SW) grid_1x1)))"
proof -
  let ?c = "MirrorCurve_new (the (getGridLine grid_1x1 (CHR ''h'', 0, 0))) SW"
  let ?b = "buildCurve ?c grid_1x1"
  have flags: "\<not> isClosed ?c" "\<not> leftGrid ?c" "curve_gridLines ?c \<noteq> []"
    by (simp_all add: MirrorCurve_new_def)
  have run: "?b = (fst ?b, fst (snd ?b), snd (snd ?b))" by simp
  have closed: "isClosed (fst (snd ?b))"
    by (simp add: grid_1x1_eval getGridLine_def curve_defs Let_def)
  from buildCurve_closed_xor_leftGrid [OF flags run] closed show ?thesis by auto
qed

section \<open>Connections stay inside the grid\<close>

lemma connectionsOf_inside:
  "i \<in> set (allLineIds R C) \<Longrightarrow> connectionsOf R C i d = Some n \<Longrightarrow> n \<in> set (allLineIds R C)"
  by (cases d) (auto simp: mem_allLineIds connectionsOf_def Let_def split: if_splits)

lemma reachable_grid_1x1: "reachable grid_1x1"
  unfolding grid_1x1_def by (rule reachable.constructed) simp_all

text \<open>
  C10. In every grid the program can hold (constructed with at least one row and one
  column), every connection id stored in a grid line is either \<open>null\<close> or the id of a
  grid line of the grid. So the validation pass that is commented out in
  \<open>computeConnections\<close> would change nothing, \<open>getAdjacentGridLine\<close> throws
  \<open>"Curve left the grid"\<close> exactly for a \<open>null\<close> connection and returns an existing id
  otherwise, and a pass through the loop of \<open>buildCurve\<close> from a grid line of the grid
  never ends in the failure "Invalid grid line returned".
\<close>

theorem connections_inside_grid:
  assumes "reachable g" and "getGridLine g i = Some l"
  shows "(\<forall>n. connections l d = Some n \<longrightarrow> getGridLine g n \<noteq> None)
       \<and> (\<lambda>d. case connections l d of
                   None \<Rightarrow> None
                 | Some n \<Rightarrow> if getGridLine g n \<noteq> None then Some n else None) = connections l
       \<and> getAdjacentGridLine g i d
           = (case connections l d of None \<Rightarrow> Inl CurveLeftGrid | Some n \<Rightarrow> Inr (Some n))
       \<and> (\<forall>c c' g'. buildCurve_iteration l d c g \<noteq> Done (Inr False) c' g')"
proof -
  have wf: "wellFormed g" by (rule reachable_wellFormed [OF assms(1)])
  let ?R = "rows g" and ?C = "cols g"
  from assms(2) have i: "i \<in> set (allLineIds ?R ?C)"
    and l: "l = lineOf ?R ?C (mirrorAt g i) i"
    by (simp_all add: wellFormed_getGridLine [OF wf] split: if_splits)
  have inside: "getGridLine g n \<noteq> None" if "connections l d' = Some n" for n d'
    using that connectionsOf_inside [OF i, of d' n] l
    by (simp add: wellFormed_getGridLine [OF wf] lineOf_def)
  have id: "line_id l = i" using l by (simp add: lineOf_def)
  have adj: "getAdjacentGridLine g i d
           = (case connections l d of None \<Rightarrow> Inl CurveLeftGrid | Some n \<Rightarrow> Inr (Some n))"
    using assms(2) by (simp add: getAdjacentGridLine_def)
  have valid: "(\<lambda>d. case connections l d of
                   None \<Rightarrow> None
                 | Some n \<Rightarrow> if getGridLine g n \<noteq> None then Some n else None) = connections l"
    using inside by (auto simp: fun_eq_iff split: option.splits)
  have iter: "buildCurve_iteration l d c g \<noteq> Done (Inr False) c' g'" for c c' g'
    using inside [of d] adj id
    by (cases "connections l d")
       (auto simp: buildCurve_iteration_def Let_def split: if_splits)
  show ?thesis using inside adj valid iter by blast
qed

theorem connections_inside_grid_witness:
  "connections (the (getGridLine grid_1x1 (CHR ''h'', 0, 0))) SW = Some (CHR ''v'', 0, 0)
   \<and> getGridLine grid_1x1 (CHR ''v'', 0, 0) \<noteq> None
   \<and> getAdjacentGridLine grid_1x1 (CHR ''h'', 0, 0) NW = Inl CurveLeftGrid"
proof -
  obtain l where l: "getGridLine grid_1x1 (CHR ''h'', 0, 0) = Some l"
    and c: "connections l SW = Some (CHR ''v'', 0, 0)" "connections l NW = None"
    by (simp add: grid_1x1_eval getGridLine_def)
  from connections_inside_grid [OF reachable_grid_1x1 l, of SW]
    connections_inside_grid [OF reachable_grid_1x1 l, of NW] l c
  show ?thesis by simp
qed

section \<open>Boundary mirrors\<close>

lemma setMirror_other:
  "j \<noteq> i \<Longrightarrow> getGridLine (setMirror j b g) i = getGridLine g i"
  by (simp add: setMirror_def getGridLine_def update_conv' split: option.splits)

lemma setMirror_dims: "rows (setMirror j b g) = rows g \<and> cols (setMirror j b g) = cols g"
  by (simp add: setMirror_def split: option.splits)

lemma randomizeMirrors_loop_boundary:
  "isBoundaryId (rows g) (cols g) i
   \<Longrightarrow> getGridLine (randomizeMirrors_loop p rnd es n g) i = getGridLine g i"
proof (induction es arbitrary: n g)
  case Nil
  then show ?case by simp
next
  case (Cons e es)
  obtain j l where e: "e = (j, l)" by (cases e)
  show ?case
  proof (cases "isBoundaryId (rows g) (cols g) j")
    case True
    then show ?thesis
      using Cons.IH [OF Cons.prems, of n]
      by (simp add: e isBoundaryId_def parseGridLineId_def Let_def)
  next
    case False
    with Cons.prems have ne: "j \<noteq> i" by auto
    let ?g1 = "setMirror j (\<not> isMirror l) g"
    have b1: "isBoundaryId (rows ?g1) (cols ?g1) i"
      using Cons.prems by (simp add: setMirror_dims)
    show ?thesis
      using False Cons.IH [OF Cons.prems, of "Suc n"] Cons.IH [OF b1, of "Suc n"]
        setMirror_other [OF ne, of "\<not> isMirror l" g]
      by (auto simp: e isBoundaryId_def parseGridLineId_def Let_def)
  qed
qed

text \<open>
  C5. In every grid the program can hold (constructed with at least one row and one
  column, then changed by any sequence of the operations), every boundary grid line
  is a mirror. Dispatching \<open>TOGGLE_MIRROR\<close> on a boundary line leaves the state as it is,
  and \<open>randomizeMirrors\<close>, whatever its argument and the random values, leaves the
  boundary line as it is.
\<close>

theorem boundary_lines_stay_mirrors:
  assumes "reachable g" and "getGridLine g i = Some l" and "isBoundaryGridLine g (Some l)"
  shows "isMirror l
       \<and> (\<forall>s rnd. grid s = g \<longrightarrow> dispatch rnd (TOGGLE_MIRROR i) s = s)
       \<and> (\<forall>p rnd. getGridLine (snd (randomizeMirrors p rnd g)) i = Some l)"
proof -
  have wf: "wellFormed g" by (rule reachable_wellFormed [OF assms(1)])
  let ?R = "rows g" and ?C = "cols g"
  from assms(2) have i: "i \<in> set (allLineIds ?R ?C)"
    and l: "l = lineOf ?R ?C (mirrorAt g i) i"
    by (simp_all add: wellFormed_getGridLine [OF wf] split: if_splits)
  have b: "isBoundaryId ?R ?C i"
    using assms(3) isBoundaryGridLine_lineOf [OF i, of "mirrorAt g i"] l by simp
  have "mirrorAt g i" using wf i b by (simp add: wellFormed_def)
  then have m: "isMirror l" using assms(2) by (simp add: mirrorAt_def)
  have t: "dispatch rnd (TOGGLE_MIRROR i) s = s" if "grid s = g" for s rnd
    using that assms(2,3) by simp
  have r: "getGridLine (snd (randomizeMirrors p rnd g)) i = Some l" for p rnd
    using assms(2) randomizeMirrors_loop_boundary [OF b]
    by (simp add: randomizeMirrors_def)
  show ?thesis using m t r by blast
qed

theorem boundary_lines_stay_mirrors_witness:
  "isMirror (the (getGridLine (grid (dispatch (\<lambda>n. 0) (TOGGLE_MIRROR (CHR ''h'', 0, 0))
       \<lparr>grid = grid_1x1, curves = [], animationPath = None\<rparr>)) (CHR ''h'', 0, 0)))"
proof -
  let ?s = "\<lparr>grid = grid_1x1, curves = [], animationPath = None\<rparr>"
  let ?g = "grid (dispatch (\<lambda>n. 0) (TOGGLE_MIRROR (CHR ''h'', 0, 0)) ?s)"
  have r0: "reachable (grid ?s)" by (simp add: reachable_grid_1x1)
  have r: "reachable ?g"
    by (rule reachable.dispatched [OF r0]) simp
  obtain l where l: "getGridLine ?g (CHR ''h'', 0, 0) = Some l"
    and b: "isBoundaryGridLine ?g (Some l)"
    by (simp add: grid_1x1_eval getGridLine_def isBoundaryGridLine_def)
  from boundary_lines_stay_mirrors [OF r l b] l show ?thesis by simp
qed


section \<open>Random mirrors\<close>

lemma reachable_grid_1x2_mirror: "reachable grid_1x2_mirror"
proof -
  have r0: "reachable (Grid_new 1 2)" by (rule reachable.constructed) simp_all
  have "reachable (grid (dispatch (\<lambda>n. 0) (TOGGLE_MIRROR (CHR ''v'', 0, 1))
           \<lparr>grid = Grid_new 1 2, curves = [], animationPath = None\<rparr>))"
    by (rule reachable.dispatched) (use r0 in simp_all)
  moreover have "grid (dispatch (\<lambda>n. 0) (TOGGLE_MIRROR (CHR ''v'', 0, 1))
           \<lparr>grid = Grid_new 1 2, curves = [], animationPath = None\<rparr>) = grid_1x2_mirror"
    by (simp add: grid_1x2_mirror_def Grid_new_eq getGridLine_def linesOf_def map_of_keyed
          mem_allLineIds isBoundaryGridLine_def lineOf_def isBoundaryId_def)
  ultimately show ?thesis by simp
qed

text \<open>
  C8. \<open>randomizeMirrors(p)\<close> throws when \<open>p < 0\<close> or \<open>p > 1\<close> and then the grid is
  exactly the grid before the call; when \<open>0 \<le> p \<le> 1\<close> it returns normally and every
  boundary grid line is the same object as before, mirror flag included.
\<close>

theorem randomizeMirrors_checks_probability:
  assumes "reachable g"
  shows "(p < 0 \<or> p > 1 \<longrightarrow> randomizeMirrors p rnd g = (Inl ProbabilityOutOfRange, g))
       \<and> (0 \<le> p \<and> p \<le> 1 \<longrightarrow>
            fst (randomizeMirrors p rnd g) = Inr ()
            \<and> (\<forall>i l. getGridLine g i = Some l \<and> isBoundaryGridLine g (Some l)
                  \<longrightarrow> getGridLine (snd (randomizeMirrors p rnd g)) i = Some l))"
proof -
  have wf: "wellFormed g" by (rule reachable_wellFormed [OF assms(1)])
  let ?R = "rows g" and ?C = "cols g"
  have keep: "getGridLine (snd (randomizeMirrors p rnd g)) i = Some l"
    if "getGridLine g i = Some l" and "isBoundaryGridLine g (Some l)" for i l
  proof -
    from that(1) have i: "i \<in> set (allLineIds ?R ?C)"
      and l: "l = lineOf ?R ?C (mirrorAt g i) i"
      by (simp_all add: wellFormed_getGridLine [OF wf] split: if_splits)
    have b: "isBoundaryId ?R ?C i"
      using that(2) isBoundaryGridLine_lineOf [OF i, of "mirrorAt g i"] l by simp
    show ?thesis
      using that(1) randomizeMirrors_loop_boundary [OF b]
      by (simp add: randomizeMirrors_def)
  qed
  show ?thesis using keep by (auto simp: randomizeMirrors_def)
qed

theorem randomizeMirrors_checks_probability_witness:
  "randomizeMirrors 2 (\<lambda>n. 0) grid_1x2_mirror = (Inl ProbabilityOutOfRange, grid_1x2_mirror)
   \<and> fst (randomizeMirrors 1 (\<lambda>n. 0) grid_1x2_mirror) = Inr ()
   \<and> isMirror (the (getGridLine (snd (randomizeMirrors 1 (\<lambda>n. 0) grid_1x2_mirror))
        (CHR ''h'', 0, 0)))
   \<and> \<not> isMirror (the (getGridLine (snd (randomizeMirrors 1 (\<lambda>n. 0) grid_1x2_mirror))
        (CHR ''v'', 0, 1)))"
proof -
  note r = reachable_grid_1x2_mirror
  obtain l where l: "getGridLine grid_1x2_mirror (CHR ''h'', 0, 0) = Some l"
    and b: "isBoundaryGridLine grid_1x2_mirror (Some l)" and m: "isMirror l"
    by (simp add: grid_1x2_mirror_eval getGridLine_def isBoundaryGridLine_def)
  have flipped: "\<not> isMirror (the (getGridLine (snd (randomizeMirrors 1 (\<lambda>n. 0) grid_1x2_mirror))
        (CHR ''v'', 0, 1)))"
    by (simp add: grid_1x2_mirror_eval randomizeMirrors_def parseGridLineId_def
          setMirror_def getGridLine_def Let_def)
  from randomizeMirrors_checks_probability [OF r, of 2 "\<lambda>n. 0"]
    randomizeMirrors_checks_probability [OF r, of 1 "\<lambda>n. 0"] l b m flipped
  show ?thesis by simp
qed

section \<open>Sampling a path by distance\<close>

text \<open>
  C9. For a non-empty list of points, \<open>getPointAtDistance\<close> with a target distance
  \<open>\<le> 0\<close>, or with fewer than two points, returns the first point with segment index 0;
  so it does at progress 0, when the target distance is 0 times the total length.
\<close>

theorem getPointAtDistance_degenerate:
  assumes "points \<noteq> []" and "length points < 2 \<or> targetDistance \<le> 0"
  shows "getPointAtDistance points targetDistance closedPath = (Some (hd points), 0)
       \<and> getPointAtDistance points (0 * totalLength) closedPath = (Some (hd points), 0)"
  using assms by (cases points) (auto simp: getPointAtDistance_def)

theorem getPointAtDistance_degenerate_witness:
  "getPointAtDistance [(1, 2), (3, 4)] 0 True = (Some (1, 2), 0)
   \<and> getPointAtDistance [(1, 2)] 5 False = (Some (1, 2), 0)"
  using getPointAtDistance_degenerate [of "[(1, 2), (3, 4)]" 0 True 1]
    getPointAtDistance_degenerate [of "[(1, 2)]" 5 False 1]
  by simp


section \<open>The spline of an open sequence\<close>

lemma length_segmentSubdivision [simp]:
  "length (segmentSubdivision P0 P1 M0 M1 s) = s"
  by (simp add: segmentSubdivision_def)

lemma length_concat_segments:
  "(\<And>i. i \<in> set xs \<Longrightarrow> length (f i) = s) \<Longrightarrow> length (concat (map f xs)) = length xs * s"
  by (induction xs) simp_all

lemma getSplinePoints_open_eq:
  assumes "2 \<le> length pts" and "\<not> alreadyClosed pts"
  shows "getSplinePoints pts tension s
         = concat (map (\<lambda>i. segmentSubdivision (pts ! i) (pts ! ((i + 1) mod length pts))
                            (splineTangents pts tension ! i)
                            (splineTangents pts tension ! ((i + 1) mod length pts)) s)
                    [0..<length pts])"
  using assms by (simp add: getSplinePoints_def Let_def)

lemma open_example: "\<not> alreadyClosed [(0, 0), (10, 0)]"
  by (simp add: alreadyClosed_def Let_def)

lemma tangents_example: "splineTangents [(0, 0), (10, 0)] (1 / 2) = [(0, 0), (0, 0)]"
  by (simp add: splineTangents_def Let_def upt_rec)

text \<open>
  C6, as the specification states it, fails. For the open sequence (0,0), (10,0) with
  tension 1/2 and 10 subdivisions the tangents are those of the cyclic neighbours
  (both are zero) and not the edge-clamped ones (both 5/2 in x); the output has 20
  points: the last input point is the point of index 10, and it is followed by the
  samples of the segment from the last point back to the first, so that the output ends
  at (7/25, 0).
\<close>

theorem getSplinePoints_open_counterexample:
  "\<not> alreadyClosed [(0, 0), (10, 0)]
   \<and> splineTangents [(0, 0), (10, 0)] (1 / 2) = [(0, 0), (0, 0)]
   \<and> clampedTangents [(0, 0), (10, 0)] (1 / 2) = [(5 / 2, 0), (5 / 2, 0)]
   \<and> length (getSplinePoints [(0, 0), (10, 0)] (1 / 2) 10) = 20
   \<and> getSplinePoints [(0, 0), (10, 0)] (1 / 2) 10 ! 10 = (10, 0)
   \<and> last (getSplinePoints [(0, 0), (10, 0)] (1 / 2) 10) = (7 / 25, 0)"
proof -
  have n: "2 \<le> length [(0::real, 0::real), (10, 0)]" by simp
  have c: "clampedTangents [(0, 0), (10, 0)] (1 / 2) = [(5 / 2, 0), (5 / 2, 0)]"
    by (simp add: clampedTangents_def Let_def upt_rec)
  have g: "getSplinePoints [(0, 0), (10, 0)] (1 / 2) 10
           = segmentSubdivision (0, 0) (10, 0) (0, 0) (0, 0) 10
             @ segmentSubdivision (10, 0) (0, 0) (0, 0) (0, 0) 10"
    by (simp add: getSplinePoints_open_eq [OF n open_example] tangents_example upt_rec)
  have l: "last (segmentSubdivision (10, 0) (0, 0) (0, 0) (0, 0) 10) = (7 / 25, 0)"
    by (simp add: segmentSubdivision_def last_map Let_def)
  have f: "segmentSubdivision (10, 0) (0, 0) (0, 0) (0, 0) 10 ! 0 = (10, 0)"
    by (simp add: segmentSubdivision_def Let_def)
  have ne: "segmentSubdivision (10, 0) (0, 0) (0, 0) (0, 0) 10 \<noteq> []"
    by (simp add: segmentSubdivision_def)
  show ?thesis
    using open_example tangents_example c l f ne
    by (simp add: g nth_append)
qed

text \<open>
  C6, amended. For an open input sequence of at least two points, \<open>getSplinePoints\<close>
  computes each point's tangent from its cyclic neighbours (the predecessor of the first
  point is the last point, the successor of the last point is the first), and its output
  begins with the samples of the segments between consecutive input points, in order,
  \<open>subdivisions\<close> samples for each.
\<close>

theorem getSplinePoints_open_cyclic:
  assumes "2 \<le> length pts" and "\<not> alreadyClosed pts"
  shows "(\<forall>i < length pts.
            splineTangents pts tension ! i
              = (((fst (pts ! ((i + 1) mod length pts))
                    - fst (pts ! ((i + length pts - 1) mod length pts))) * (1 - tension)) / 2,
                 ((snd (pts ! ((i + 1) mod length pts))
                    - snd (pts ! ((i + length pts - 1) mod length pts))) * (1 - tension)) / 2))
       \<and> take ((length pts - 1) * s) (getSplinePoints pts tension s)
           = concat (map (\<lambda>i. segmentSubdivision (pts ! i) (pts ! (i + 1))
                            (splineTangents pts tension ! i)
                            (splineTangents pts tension ! (i + 1)) s)
                      [0..<length pts - 1])"
proof -
  let ?N = "length pts"
  let ?T = "splineTangents pts tension"
  let ?f = "\<lambda>i. segmentSubdivision (pts ! i) (pts ! ((i + 1) mod ?N))
                   (?T ! i) (?T ! ((i + 1) mod ?N)) s"
  let ?h = "\<lambda>i. segmentSubdivision (pts ! i) (pts ! (i + 1)) (?T ! i) (?T ! (i + 1)) s"
  have tang: "\<forall>i < ?N. ?T ! i
              = (((fst (pts ! ((i + 1) mod ?N))
                    - fst (pts ! ((i + ?N - 1) mod ?N))) * (1 - tension)) / 2,
                 ((snd (pts ! ((i + 1) mod ?N))
                    - snd (pts ! ((i + ?N - 1) mod ?N))) * (1 - tension)) / 2)"
    by (simp add: splineTangents_def Let_def)
  have split: "[0..<?N] = [0..<?N - 1] @ [?N - 1]"
    using assms(1) by (metis Suc_diff_1 less_le_trans pos2 upt_Suc_append zero_le)
  have same: "map ?f [0..<?N - 1] = map ?h [0..<?N - 1]"
    by (rule map_cong) auto
  have len: "length (concat (map ?h [0..<?N - 1])) = (?N - 1) * s"
    using length_concat_segments [of "[0..<?N - 1]" ?h s] by simp
  have "getSplinePoints pts tension s = concat (map ?f [0..<?N])"
    by (rule getSplinePoints_open_eq [OF assms])
  also have "\<dots> = concat (map ?f ([0..<?N - 1] @ [?N - 1]))"
    using split by simp
  also have "\<dots> = concat (map ?h [0..<?N - 1]) @ ?f (?N - 1)"
    unfolding map_append concat_append same by simp
  finally have "take ((?N - 1) * s) (getSplinePoints pts tension s) = concat (map ?h [0..<?N - 1])"
    using len by simp
  with tang show ?thesis by blast
qed

theorem getSplinePoints_open_cyclic_witness:
  "take 10 (getSplinePoints [(0, 0), (10, 0)] (1 / 2) 10)
     = segmentSubdivision (0, 0) (10, 0) (0, 0) (0, 0) 10
   \<and> splineTangents [(0, 0), (10, 0)] (1 / 2) ! 0 = (0, 0)"
proof -
  have n: "2 \<le> length [(0::real, 0::real), (10, 0)]" by simp
  from getSplinePoints_open_cyclic [OF n open_example, of "1 / 2" 10]
  show ?thesis by (simp add: tangents_example)
qed


section \<open>Geometry of the walk\<close>

lemma direction_UNIV: "(UNIV :: direction set) = {NW, NE, SW, SE}"
  using direction.exhaust by auto

lemma reflectionOf_involution [simp]: "reflectionOf t m (reflectionOf t m d) = d"
  by (cases t; cases d) (simp_all add: reflectionOf_def)

lemma oppositeDirection_involution [simp]: "oppositeDirection (oppositeDirection d) = d"
  by (cases d) (simp_all add: oppositeDirection_def)

lemma reflectionOf_opposite:
  "reflectionOf t m (oppositeDirection d) = oppositeDirection (reflectionOf t m d)"
  by (cases t; cases d) (simp_all add: reflectionOf_def oppositeDirection_def)

lemma connectionsOf_back:
  "i \<in> set (allLineIds R C) \<Longrightarrow> connectionsOf R C i d = Some n
   \<Longrightarrow> connectionsOf R C n (oppositeDirection d) = Some i"
  by (cases i; cases d)
     (auto simp: mem_allLineIds connectionsOf_def oppositeDirection_def Let_def
        split: if_splits)

lemma connectionsOf_tag:
  "connectionsOf R C i d = Some n \<Longrightarrow> (fst n = CHR ''h'') \<noteq> (fst i = CHR ''h'')"
  by (cases d) (auto simp: connectionsOf_def Let_def split: if_splits)


lemma step_connection:
  assumes "1 \<le> R" and "1 \<le> C" and "i \<in> set (allLineIds R C)"
    and "connectionsOf R C i d = Some n" and "isBoundaryId R C n \<longrightarrow> mn"
  shows "connectionsOf R C n (reflectionOf (lineTypeOf n) mn d) \<noteq> None"
  using assms
  by (cases i; cases d; cases mn)
     (auto simp: mem_allLineIds connectionsOf_def reflectionOf_def lineTypeOf_def
        isBoundaryId_def Let_def split: if_splits)

lemma back_connection:
  assumes "1 \<le> R" and "1 \<le> C" and "i \<in> set (allLineIds R C)"
    and "connectionsOf R C i d \<noteq> None" and "isBoundaryId R C i \<longrightarrow> mi"
  shows "connectionsOf R C i (oppositeDirection (reflectionOf (lineTypeOf i) mi d)) \<noteq> None"
  using assms
  by (cases i; cases d; cases mi)
     (auto simp: mem_allLineIds connectionsOf_def reflectionOf_def lineTypeOf_def
        oppositeDirection_def isBoundaryId_def Let_def split: if_splits)

lemma validPair_step:
  assumes "wellFormed g" and "validPair g x"
  shows "validPair g (stepPair g x)"
proof -
  let ?R = "rows g" and ?C = "cols g"
  from assms(2) obtain n where i: "fst x \<in> set (allLineIds ?R ?C)"
    and n: "connectionsOf ?R ?C (fst x) (snd x) = Some n"
    by (auto simp: validPair_def)
  have nin: "n \<in> set (allLineIds ?R ?C)" by (rule connectionsOf_inside [OF i n])
  have b: "isBoundaryId ?R ?C n \<longrightarrow> mirrorAt g n"
    using assms(1) nin by (simp add: wellFormed_def)
  have "connectionsOf ?R ?C n (reflectionOf (lineTypeOf n) (mirrorAt g n) (snd x)) \<noteq> None"
    using assms(1) by (intro step_connection [OF _ _ i n b]) (simp_all add: wellFormed_def)
  then show ?thesis using n nin by (simp add: validPair_def stepPair_def)
qed

lemma validPair_back:
  assumes "wellFormed g" and "validPair g x"
  shows "validPair g (backPair g x)"
proof -
  let ?R = "rows g" and ?C = "cols g"
  from assms(2) have i: "fst x \<in> set (allLineIds ?R ?C)"
    and n: "connectionsOf ?R ?C (fst x) (snd x) \<noteq> None"
    by (auto simp: validPair_def)
  have b: "isBoundaryId ?R ?C (fst x) \<longrightarrow> mirrorAt g (fst x)"
    using assms(1) i by (simp add: wellFormed_def)
  have "connectionsOf ?R ?C (fst x)
          (oppositeDirection (reflectionOf (lineTypeOf (fst x)) (mirrorAt g (fst x)) (snd x)))
        \<noteq> None"
    using assms(1) by (intro back_connection [OF _ _ i n b]) (simp_all add: wellFormed_def)
  then show ?thesis using i by (simp add: validPair_def backPair_def)
qed

lemma backPair_involution [simp]: "backPair g (backPair g x) = x"
  by (simp add: backPair_def reflectionOf_opposite)

lemma reflectionOf_inj: "reflectionOf t m d = reflectionOf t m e \<Longrightarrow> d = e"
  by (metis reflectionOf_involution)

lemma stepPair_inj:
  assumes "validPair g x" and "validPair g y" and "stepPair g x = stepPair g y"
  shows "x = y"
proof -
  let ?R = "rows g" and ?C = "cols g"
  from assms(1) obtain n where i: "fst x \<in> set (allLineIds ?R ?C)"
    and n: "connectionsOf ?R ?C (fst x) (snd x) = Some n"
    by (auto simp: validPair_def)
  from assms(2) obtain n' where j: "fst y \<in> set (allLineIds ?R ?C)"
    and n': "connectionsOf ?R ?C (fst y) (snd y) = Some n'"
    by (auto simp: validPair_def)
  from assms(3) n n' have nn: "n' = n"
    and r: "reflectionOf (lineTypeOf n) (mirrorAt g n) (snd x)
            = reflectionOf (lineTypeOf n) (mirrorAt g n) (snd y)"
    by (auto simp: stepPair_def)
  from r have d: "snd x = snd y" by (rule reflectionOf_inj)
  from connectionsOf_back [OF i n] connectionsOf_back [OF j n' [unfolded nn]] d
  have "fst x = fst y" by simp
  with d show ?thesis by (simp add: prod_eq_iff)
qed

lemma backPair_stepPair:
  assumes "validPair g x"
  shows "backPair g (stepPair g x) = (fst (stepPair g x), oppositeDirection (snd x))"
  using assms by (auto simp: validPair_def stepPair_def backPair_def)

lemma stepPair_backPair_stepPair:
  assumes "validPair g x"
  shows "stepPair g (backPair g (stepPair g x)) = backPair g x"
proof -
  let ?R = "rows g" and ?C = "cols g"
  from assms obtain n where i: "fst x \<in> set (allLineIds ?R ?C)"
    and n: "connectionsOf ?R ?C (fst x) (snd x) = Some n"
    by (auto simp: validPair_def)
  have s: "stepPair g x = (n, reflectionOf (lineTypeOf n) (mirrorAt g n) (snd x))"
    using n by (simp add: stepPair_def)
  have b: "backPair g (stepPair g x) = (n, oppositeDirection (snd x))"
    using backPair_stepPair [OF assms] s by simp
  show ?thesis
    unfolding b using connectionsOf_back [OF i n]
    by (simp add: stepPair_def backPair_def reflectionOf_opposite)
qed

lemma stepPair_other_line:
  assumes "validPair g x" shows "fst (stepPair g x) \<noteq> fst x"
proof -
  from assms obtain n where n: "connectionsOf (rows g) (cols g) (fst x) (snd x) = Some n"
    by (auto simp: validPair_def)
  from connectionsOf_tag [OF n] have "n \<noteq> fst x" by auto
  then show ?thesis using n by (simp add: stepPair_def)
qed

lemma chirality_step:
  assumes "validPair g x" shows "chirality (stepPair g x) = chirality x"
proof -
  obtain t r c d where x: "x = ((t, r, c), d)" by (metis prod.exhaust)
  show ?thesis
    using assms unfolding x
    by (cases d; cases "mirrorAt g (the (connectionsOf (rows g) (cols g) (t, r, c) d))")
       (auto simp: validPair_def stepPair_def chirality_def connectionsOf_def reflectionOf_def
          lineTypeOf_def mem_allLineIds Let_def split: if_splits)
qed

lemma chirality_back:
  "chirality (backPair g x) \<noteq> chirality x"
proof -
  obtain t r c d where x: "x = ((t, r, c), d)" by (metis prod.exhaust)
  show ?thesis
    unfolding x
    by (cases d; cases "mirrorAt g (t, r, c)")
       (auto simp: backPair_def chirality_def reflectionOf_def oppositeDirection_def
          lineTypeOf_def)
qed

section \<open>Orbits of the walk\<close>

lemma validPair_funpow:
  "wellFormed g \<Longrightarrow> validPair g x \<Longrightarrow> validPair g ((stepPair g ^^ k) x)"
  by (induction k) (simp_all add: validPair_step)

lemma funpow_stepPair_inj:
  assumes "wellFormed g"
  shows "validPair g x \<Longrightarrow> validPair g y
         \<Longrightarrow> (stepPair g ^^ k) x = (stepPair g ^^ k) y \<Longrightarrow> x = y"
proof (induction k)
  case 0
  then show ?case by simp
next
  case (Suc k)
  have "stepPair g ((stepPair g ^^ k) x) = stepPair g ((stepPair g ^^ k) y)"
    using Suc.prems(3) by simp
  then have "(stepPair g ^^ k) x = (stepPair g ^^ k) y"
    by (rule stepPair_inj [OF validPair_funpow [OF assms Suc.prems(1)]
                              validPair_funpow [OF assms Suc.prems(2)]])
  then show ?case by (rule Suc.IH [OF Suc.prems(1,2)])
qed

lemma funpow_collision:
  assumes "wellFormed g" and "validPair g x" and "i < j"
    and "(stepPair g ^^ i) x = (stepPair g ^^ j) x"
  shows "(stepPair g ^^ (j - i)) x = x"
proof -
  have "(stepPair g ^^ j) x = (stepPair g ^^ i) ((stepPair g ^^ (j - i)) x)"
    using assms(3) by (metis add_diff_inverse_nat funpow_add less_imp_le_nat not_less o_apply)
  with assms(4) have "(stepPair g ^^ i) x = (stepPair g ^^ i) ((stepPair g ^^ (j - i)) x)"
    by simp
  from funpow_stepPair_inj [OF assms(1) assms(2) validPair_funpow [OF assms(1,2)] this]
  show ?thesis by simp
qed

lemma card_direction: "card (UNIV :: direction set) = 4"
  by (simp add: direction_UNIV)

lemma finite_allPairs: "finite (allPairs g)"
  by (simp add: allPairs_def direction_UNIV)

lemma card_allPairs: "card (allPairs g) = 4 * length (allLineIds (rows g) (cols g))"
  by (simp add: allPairs_def card_cartesian_product card_direction
        distinct_card [OF distinct_allLineIds])

lemma validPair_allPairs: "validPair g x \<Longrightarrow> x \<in> allPairs g"
  by (cases x) (simp add: validPair_def allPairs_def)

lemma periodic:
  assumes "wellFormed g" and "validPair g x"
  shows "\<exists>n. 0 < n \<and> n \<le> card (allPairs g) \<and> (stepPair g ^^ n) x = x"
proof -
  let ?f = "\<lambda>j. (stepPair g ^^ j) x"
  let ?A = "{0..card (allPairs g)}"
  have sub: "?f ` ?A \<subseteq> allPairs g"
    using validPair_allPairs [OF validPair_funpow [OF assms]] by auto
  have "card (?f ` ?A) \<le> card (allPairs g)"
    by (rule card_mono [OF finite_allPairs sub])
  then have "card (?f ` ?A) < card ?A" by simp
  then have "\<not> inj_on ?f ?A" by (rule pigeonhole)
  then obtain i j where ij: "i \<in> ?A" "j \<in> ?A" "i \<noteq> j" "?f i = ?f j"
    by (auto simp: inj_on_def)
  show ?thesis
  proof (cases "i < j")
    case True
    from funpow_collision [OF assms True ij(4)] True ij(2)
    show ?thesis by (intro exI [of _ "j - i"]) auto
  next
    case False
    with ij(3) have lt: "j < i" by simp
    from funpow_collision [OF assms lt ij(4) [symmetric]] lt ij(1)
    show ?thesis by (intro exI [of _ "i - j"]) auto
  qed
qed

lemma period_props:
  assumes "wellFormed g" and "validPair g x"
  shows "0 < period g x" and "(stepPair g ^^ period g x) x = x"
    and "period g x \<le> card (allPairs g)"
    and "\<And>j. 0 < j \<Longrightarrow> j < period g x \<Longrightarrow> (stepPair g ^^ j) x \<noteq> x"
proof -
  let ?P = "\<lambda>n. 0 < n \<and> (stepPair g ^^ n) x = x"
  from periodic [OF assms] obtain n where n: "?P n" "n \<le> card (allPairs g)" by blast
  have least: "?P (period g x)" unfolding period_def using n(1) by (rule LeastI)
  then show "0 < period g x" and "(stepPair g ^^ period g x) x = x" by simp_all
  have "period g x \<le> n" unfolding period_def using n(1) by (rule Least_le)
  with n(2) show "period g x \<le> card (allPairs g)" by simp
  show "(stepPair g ^^ j) x \<noteq> x" if "0 < j" "j < period g x" for j
    using that not_less_Least [of j ?P] by (auto simp: period_def)
qed

lemma period_ge_2:
  assumes "wellFormed g" and "validPair g x"
  shows "2 \<le> period g x"
proof -
  have "period g x \<noteq> 1"
    using period_props(2) [OF assms] stepPair_other_line [OF assms(2)] by auto
  with period_props(1) [OF assms] show ?thesis by simp
qed

lemma orbit_distinct:
  assumes "wellFormed g" and "validPair g x" and "i < j" and "j - i < period g x"
  shows "(stepPair g ^^ i) x \<noteq> (stepPair g ^^ j) x"
proof
  assume "(stepPair g ^^ i) x = (stepPair g ^^ j) x"
  from funpow_collision [OF assms(1,2,3) this]
  show False using period_props(4) [OF assms(1,2), of "j - i"] assms(3,4) by simp
qed

section \<open>One trace follows one orbit\<close>

lemma sameLines_sym: "sameLines g g' \<Longrightarrow> sameLines g' g"
  by (simp add: sameLines_def)

lemma sameLines_stepPair:
  assumes "sameLines g g'" shows "stepPair g' = stepPair g"
proof -
  have m: "mirrorAt g' = mirrorAt g" by (rule sameLines_mirrorAt [OF assms])
  have "rows g' = rows g" "cols g' = cols g" using assms by (simp_all add: sameLines_def)
  then show ?thesis by (simp add: fun_eq_iff stepPair_def m cong: option.case_cong)
qed

lemma sameLines_backPair:
  assumes "sameLines g g'" shows "backPair g' = backPair g"
proof -
  have m: "mirrorAt g' = mirrorAt g" by (rule sameLines_mirrorAt [OF assms])
  show ?thesis by (simp add: fun_eq_iff backPair_def m)
qed

lemma sameLines_validPair: "sameLines g g' \<Longrightarrow> validPair g' = validPair g"
  by (simp add: fun_eq_iff validPair_def sameLines_def)

lemma sameLines_allPairs: "sameLines g g' \<Longrightarrow> allPairs g' = allPairs g"
  by (simp add: allPairs_def sameLines_def)

lemma usedPairs_mark:
  "usedDirections g i \<noteq> None
   \<Longrightarrow> usedPairs (markDirectionUsed i d g) = insert (i, d) (usedPairs g)"
  by (auto simp: usedPairs_def markDirectionUsed_def split: if_splits)

lemma wellFormed_used:
  "wellFormed g \<Longrightarrow> i \<in> set (allLineIds (rows g) (cols g)) \<Longrightarrow> usedDirections g i \<noteq> None"
  by (auto simp: wellFormed_def)

lemma orbitList_Suc:
  "orbitList g x (Suc k) = orbitList g x k @ [(stepPair g ^^ Suc k) x]"
  by (simp add: orbitList_def)

lemma length_orbitList [simp]: "length (orbitList g x k) = Suc k"
  by (simp add: orbitList_def)

lemma hd_orbitList [simp]: "hd (orbitList g x k) = x"
  by (simp add: orbitList_def upt_rec [of 0])

lemma iteration_valid:
  assumes wf: "wellFormed g" and v: "validPair g (line_id cur, d)"
  shows "buildCurve_iteration cur d c g =
     (let y = stepPair g (line_id cur, d);
          nl = lineOf (rows g) (cols g) (mirrorAt g (fst y)) (fst y);
          c1 = addSegment nl (snd y) c;
          g2 = markDirectionUsed (fst y) (oppositeDirection d)
                 (markDirectionUsed (fst y) (snd y) g)
      in if length (curve_gridLines c1) > 2 \<and> fst y = line_id (hd (curve_gridLines c1))
            \<and> snd y = hd (directions c1)
         then Done (Inr True) (c1\<lparr>isClosed := True\<rparr>) g2
         else Next nl (snd y) c1 g2)"
proof -
  let ?R = "rows g" and ?C = "cols g"
  let ?i = "line_id cur"
  from v obtain n where i: "?i \<in> set (allLineIds ?R ?C)"
    and n: "connectionsOf ?R ?C ?i d = Some n"
    by (auto simp: validPair_def)
  have nin: "n \<in> set (allLineIds ?R ?C)" by (rule connectionsOf_inside [OF i n])
  let ?nl = "lineOf ?R ?C (mirrorAt g n) n"
  have gi: "getGridLine g ?i = Some (lineOf ?R ?C (mirrorAt g ?i) ?i)"
    using i by (simp add: wellFormed_getGridLine [OF wf])
  have gn: "getGridLine g n = Some ?nl"
    using nin by (simp add: wellFormed_getGridLine [OF wf])
  have adj: "getAdjacentGridLine g ?i d = Inr (Some n)"
    using gi n by (simp add: getAdjacentGridLine_def lineOf_def)
  have nd: "(if isMirror ?nl then getReflectedDirection g n d else d)
            = reflectionOf (lineTypeOf n) (mirrorAt g n) d"
    by (simp add: getReflectedDirection_eq [OF gn])
       (simp add: lineOf_def lineTypeOf_def reflectionOf_def)
  have y: "stepPair g (?i, d) = (n, reflectionOf (lineTypeOf n) (mirrorAt g n) d)"
    using n by (simp add: stepPair_def)
  have id: "line_id ?nl = n" by (simp add: lineOf_def)
  show ?thesis
    unfolding buildCurve_iteration_def adj y
    by (simp add: gn nd id Let_def del: lineOf_def)
qed

lemma zip_fst_snd: "zip (map fst xs) (map snd xs) = xs"
  by (induction xs) auto

lemma buildCurve_loop_trace:
  assumes wf0: "wellFormed g0" and v0: "validPair g0 x0"
    and bound: "period g0 x0 < MAX_SEGMENTS"
  shows "period g0 x0 - k = m \<Longrightarrow> k < period g0 x0 \<Longrightarrow> sameLines g0 g
     \<Longrightarrow> map line_id (curve_gridLines c) = map fst (orbitList g0 x0 k)
     \<Longrightarrow> directions c = map snd (orbitList g0 x0 k)
     \<Longrightarrow> line_id cur = fst ((stepPair g0 ^^ k) x0) \<Longrightarrow> d = snd ((stepPair g0 ^^ k) x0)
     \<Longrightarrow> \<not> isClosed c \<Longrightarrow> \<not> leftGrid c
     \<Longrightarrow> \<exists>c' g'. buildCurve_loop cur d c g = (Inr True, c', g')
           \<and> steps c' = orbitList g0 x0 (period g0 x0)
           \<and> isClosed c' \<and> \<not> leftGrid c' \<and> sameLines g0 g'
           \<and> usedPairs g' = usedPairs g
                \<union> (\<Union>j\<in>{k<..period g0 x0}.
                      {(stepPair g0 ^^ j) x0, backPair g0 ((stepPair g0 ^^ j) x0)})"
proof (induction m arbitrary: k cur d c g)
  case 0
  then show ?case by simp
next
  case (Suc m)
  let ?n = "period g0 x0"
  let ?F = "stepPair g0"
  let ?xk = "(?F ^^ k) x0"
  let ?y = "(?F ^^ Suc k) x0"
  note sl = \<open>sameLines g0 g\<close>
  have wf: "wellFormed g" by (rule wellFormed_sameLines [OF wf0 sl])
  have sp: "stepPair g = ?F" by (rule sameLines_stepPair [OF sl])
  have bp: "backPair g = backPair g0" by (rule sameLines_backPair [OF sl])
  have vk0: "validPair g0 ?xk" by (rule validPair_funpow [OF wf0 v0])
  have cur: "(line_id cur, d) = ?xk" using Suc.prems(6,7) by simp
  have vk: "validPair g (line_id cur, d)"
    using vk0 cur sameLines_validPair [OF sl] by simp
  have yeq: "stepPair g (line_id cur, d) = ?y" using cur sp by simp
  have vy: "validPair g0 ?y" by (rule validPair_funpow [OF wf0 v0])
  have len: "length (curve_gridLines c) = Suc k"
    using arg_cong [OF Suc.prems(4), of length] by simp
  have lend: "length (directions c) = Suc k"
    using arg_cong [OF Suc.prems(5), of length] by simp
  have ne: "curve_gridLines c \<noteq> []" "directions c \<noteq> []" using len lend by auto
  have cond: "length (curve_gridLines c) < MAX_SEGMENTS"
    using len Suc.prems(2) bound by simp
  have one: "orbitList g0 x0 k \<noteq> []" by (simp add: orbitList_def)
  have hdl: "line_id (hd (curve_gridLines c)) = fst x0"
    using arg_cong [OF Suc.prems(4), of hd] ne one by (simp add: hd_map)
  have hdd: "hd (directions c) = snd x0"
    using arg_cong [OF Suc.prems(5), of hd] one by (simp add: hd_map)
  let ?nl = "lineOf (rows g) (cols g) (mirrorAt g (fst ?y)) (fst ?y)"
  let ?c1 = "addSegment ?nl (snd ?y) c"
  let ?g2 = "markDirectionUsed (fst ?y) (oppositeDirection d)
               (markDirectionUsed (fst ?y) (snd ?y) g)"
  have it: "buildCurve_iteration cur d c g
            = (if 0 < k \<and> ?y = x0 then Done (Inr True) (?c1\<lparr>isClosed := True\<rparr>) ?g2
               else Next ?nl (snd ?y) ?c1 ?g2)"
    unfolding iteration_valid [OF wf vk] yeq
    using len ne hdl hdd
    by (auto simp: Let_def addSegment_def prod_eq_iff)
  have c1l: "map line_id (curve_gridLines ?c1) = map fst (orbitList g0 x0 (Suc k))"
    using Suc.prems(4) by (simp add: addSegment_def orbitList_Suc lineOf_def)
  have c1d: "directions ?c1 = map snd (orbitList g0 x0 (Suc k))"
    using Suc.prems(5) by (simp add: addSegment_def orbitList_Suc)
  have s2: "sameLines g0 ?g2"
    by (rule sameLines_trans [OF sl sameLines_trans
          [OF sameLines_markDirectionUsed sameLines_markDirectionUsed]])
  have yin: "fst ?y \<in> set (allLineIds (rows g) (cols g))"
    using vy sl by (simp add: validPair_def sameLines_def)
  have u1: "usedDirections g (fst ?y) \<noteq> None" by (rule wellFormed_used [OF wf yin])
  have u1': "usedDirections (markDirectionUsed (fst ?y) (snd ?y) g) (fst ?y) \<noteq> None"
    using u1 by (auto simp: markDirectionUsed_def)
  have by': "backPair g0 ?y = (fst ?y, oppositeDirection d)"
    using backPair_stepPair [OF vk0] Suc.prems(7) by simp
  have u2: "usedPairs ?g2 = usedPairs g \<union> {?y, backPair g0 ?y}"
    unfolding by' usedPairs_mark [OF u1'] usedPairs_mark [OF u1] by auto
  show ?case
  proof (cases "Suc k = ?n")
    case True
    have y0: "?y = x0" using period_props(2) [OF wf0 v0] True by simp
    have k0: "0 < k" using period_ge_2 [OF wf0 v0] True by simp
    have run: "buildCurve_loop cur d c g = (Inr True, ?c1\<lparr>isClosed := True\<rparr>, ?g2)"
      using cond it y0 k0 by (simp add: buildCurve_loop.simps [of cur d c g])
    have st: "steps (?c1\<lparr>isClosed := True\<rparr>) = orbitList g0 x0 ?n"
      using c1l c1d True by (simp add: steps_def zip_fst_snd)
    have lg: "\<not> leftGrid (?c1\<lparr>isClosed := True\<rparr>)"
      using Suc.prems(9) by (simp add: addSegment_def)
    have iv: "{k<..?n} = {Suc k}" using True by auto
    show ?thesis
      using run st lg s2 u2 unfolding iv by simp
  next
    case False
    with Suc.prems(2) have lt: "Suc k < ?n" by simp
    have yn: "?y \<noteq> x0" using period_props(4) [OF wf0 v0, of "Suc k"] lt by simp
    have run: "buildCurve_loop cur d c g = buildCurve_loop ?nl (snd ?y) ?c1 ?g2"
      using cond it yn by (simp add: buildCurve_loop.simps [of cur d c g])
    have m: "?n - Suc k = m" using Suc.prems(1) by simp
    have id: "line_id ?nl = fst ?y" by (simp add: lineOf_def)
    have f1: "\<not> isClosed ?c1" "\<not> leftGrid ?c1"
      using Suc.prems(8,9) by (simp_all add: addSegment_def)
    from Suc.IH [OF m lt s2 c1l c1d id refl f1]
    obtain c' g' where r: "buildCurve_loop ?nl (snd ?y) ?c1 ?g2 = (Inr True, c', g')"
      and p: "steps c' = orbitList g0 x0 ?n" "isClosed c'" "\<not> leftGrid c'" "sameLines g0 g'"
      and u: "usedPairs g' = usedPairs ?g2
                \<union> (\<Union>j\<in>{Suc k<..?n}. {(?F ^^ j) x0, backPair g0 ((?F ^^ j) x0)})"
      by blast
    have iv: "{k<..?n} = insert (Suc k) {Suc k<..?n}" using lt by auto
    have "usedPairs g' = usedPairs g
                \<union> (\<Union>j\<in>{k<..?n}. {(?F ^^ j) x0, backPair g0 ((?F ^^ j) x0)})"
      unfolding u u2 iv by auto
    with run r p show ?thesis by simp
  qed
qed

section \<open>The pairs marked by one trace\<close>

lemma orbit_image:
  assumes "wellFormed g" and "validPair g x"
  shows "orbit g x = (\<lambda>j. (stepPair g ^^ j) x) ` {0<..period g x}"
proof -
  let ?n = "period g x"
  let ?f = "\<lambda>j. (stepPair g ^^ j) x"
  note pp = period_props [OF assms]
  have "?f j \<in> ?f ` {0<..?n}" for j
  proof (cases "j mod ?n = 0")
    case True
    have "?f j = ?f (j mod ?n)" using funpow_mod_eq [OF pp(2), of j] by simp
    also have "\<dots> = ?f ?n" using True pp(2) by simp
    finally show ?thesis using pp(1) by auto
  next
    case False
    have "?f j = ?f (j mod ?n)" using funpow_mod_eq [OF pp(2), of j] by simp
    moreover have "j mod ?n \<in> {0<..?n}" using False pp(1) by (simp add: less_imp_le)
    ultimately show ?thesis by (metis imageI)
  qed
  then show ?thesis by (auto simp: orbit_def)
qed

lemma orbit_self: "x \<in> orbit g x"
  unfolding orbit_def by (rule range_eqI [of _ _ 0]) simp

lemma orbit_step: "y \<in> orbit g x \<Longrightarrow> stepPair g y \<in> orbit g x"
proof -
  assume "y \<in> orbit g x"
  then obtain j where "y = (stepPair g ^^ j) x" by (auto simp: orbit_def)
  then have "stepPair g y = (stepPair g ^^ Suc j) x" by simp
  then show ?thesis unfolding orbit_def by (rule range_eqI)
qed

lemma orbit_valid:
  "wellFormed g \<Longrightarrow> validPair g x \<Longrightarrow> y \<in> orbit g x \<Longrightarrow> validPair g y"
  by (auto simp: orbit_def validPair_funpow)

lemma orbit_pred:
  assumes "wellFormed g" and "validPair g x" and "y \<in> orbit g x"
  shows "\<exists>z \<in> orbit g x. y = stepPair g z"
proof -
  from assms(3) obtain j where j: "0 < j" "y = (stepPair g ^^ j) x"
    unfolding orbit_image [OF assms(1,2)] by auto
  then obtain i where "j = Suc i" by (cases j) auto
  with j have "y = stepPair g ((stepPair g ^^ i) x)" by simp
  moreover have "(stepPair g ^^ i) x \<in> orbit g x" by (simp add: orbit_def)
  ultimately show ?thesis by blast
qed

lemma chirality_orbit:
  assumes "wellFormed g" and "validPair g x" and "y \<in> orbit g x"
  shows "chirality y = chirality x"
proof -
  have "chirality ((stepPair g ^^ j) x) = chirality x" for j
    by (induction j) (simp_all add: chirality_step [OF validPair_funpow [OF assms(1,2)]])
  with assms(3) show ?thesis by (auto simp: orbit_def)
qed

lemma orbit_back_disjoint:
  assumes "wellFormed g" and "validPair g x"
  shows "orbit g x \<inter> backPair g ` orbit g x = {}"
proof -
  have False if "y \<in> orbit g x" "z \<in> orbit g x" "y = backPair g z" for y z
    using chirality_orbit [OF assms that(1)] chirality_orbit [OF assms that(2)]
      chirality_back [of g z] that(3) by simp
  then show ?thesis by blast
qed

lemma orbitList_shift: "orbitList g x (Suc k) = x # orbitList g (stepPair g x) k"
proof -
  have "[0..<Suc (Suc k)] = 0 # map Suc [0..<Suc k]"
    by (simp only: map_Suc_upt upt_rec [of 0 "Suc (Suc k)"]) simp
  then show ?thesis
    by (simp only: orbitList_def list.map map_map comp_def funpow_0 funpow_Suc_right)
qed

lemma marksOf_orbitList:
  assumes "wellFormed g"
  shows "validPair g x \<Longrightarrow> marksOf (orbitList g x k)
         = concat (map (\<lambda>j. [(stepPair g ^^ j) x, backPair g ((stepPair g ^^ j) x)])
                     [1..<Suc k])"
proof (induction k arbitrary: x)
  case 0
  then show ?case by (simp add: orbitList_def)
next
  case (Suc k)
  let ?F = "stepPair g"
  have v: "validPair g (?F x)" by (rule validPair_step [OF assms Suc.prems])
  have "[0..<Suc k] = 0 # [1..<Suc k]" by (simp add: upt_conv_Cons)
  then have "orbitList g (?F x) k = ?F x # map (\<lambda>j. (?F ^^ j) (?F x)) [1..<Suc k]"
    by (simp add: orbitList_def)
  then obtain rest where rest: "orbitList g (?F x) k = ?F x # rest" by blast
  have "marksOf (orbitList g x (Suc k))
        = ?F x # (fst (?F x), oppositeDirection (snd x)) # marksOf (orbitList g (?F x) k)"
    by (simp add: orbitList_shift rest)
  also have "(fst (?F x), oppositeDirection (snd x)) = backPair g (?F x)"
    by (rule backPair_stepPair [OF Suc.prems, symmetric])
  also have "marksOf (orbitList g (?F x) k)
        = concat (map (\<lambda>j. [(?F ^^ j) (?F x), backPair g ((?F ^^ j) (?F x))]) [1..<Suc k])"
    by (rule Suc.IH [OF v])
  also have "\<dots> = concat (map (\<lambda>j. [(?F ^^ j) x, backPair g ((?F ^^ j) x)])
                        (map Suc [1..<Suc k]))"
    by (simp add: comp_def funpow_swap1)
  also have "map Suc [1..<Suc k] = [2..<Suc (Suc k)]"
    by (simp only: map_Suc_upt) (simp add: numeral_2_eq_2)
  finally have A: "marksOf (orbitList g x (Suc k))
        = concat (map (\<lambda>j. [(?F ^^ j) x, backPair g ((?F ^^ j) x)]) (1 # [2..<Suc (Suc k)]))"
    by simp
  have B: "1 # [2..<Suc (Suc k)] = [1..<Suc (Suc k)]"
    by (simp add: upt_conv_Cons numeral_2_eq_2 del: upt_Suc)
  show ?case unfolding A B ..
qed

lemma set_marksOf_orbit:
  assumes "wellFormed g" and "validPair g x"
  shows "set (marksOf (orbitList g x (period g x))) = orbit g x \<union> backPair g ` orbit g x"
proof -
  have a: "set (concat (map (\<lambda>j. [(stepPair g ^^ j) x, backPair g ((stepPair g ^^ j) x)]) js))
           = (\<Union>j\<in>set js. {(stepPair g ^^ j) x, backPair g ((stepPair g ^^ j) x)})" for js
    by (induction js) auto
  have s: "set [1..<Suc (period g x)] = {0<..period g x}" by auto
  have "set (marksOf (orbitList g x (period g x)))
        = (\<Union>j\<in>{0<..period g x}. {(stepPair g ^^ j) x, backPair g ((stepPair g ^^ j) x)})"
    unfolding marksOf_orbitList [OF assms] a s ..
  also have "\<dots> = orbit g x \<union> backPair g ` orbit g x"
    unfolding orbit_image [OF assms] by auto
  finally show ?thesis .
qed

lemma backPair_inj: "backPair g a = backPair g b \<Longrightarrow> a = b"
  by (metis backPair_involution)

lemma distinct_marksOf_orbit:
  assumes "wellFormed g" and "validPair g x"
  shows "distinct (marksOf (orbitList g x (period g x)))"
proof -
  let ?n = "period g x"
  let ?f = "\<lambda>j. (stepPair g ^^ j) x"
  let ?h = "\<lambda>j. [?f j, backPair g (?f j)]"
  have ne: "?f i \<noteq> ?f j" if "i \<in> {0<..?n}" "j \<in> {0<..?n}" "i \<noteq> j" for i j
  proof (cases "i < j")
    case True
    with that show ?thesis by (intro orbit_distinct [OF assms]) auto
  next
    case False
    with that have "j < i" by simp
    with that have "?f j \<noteq> ?f i" by (intro orbit_distinct [OF assms]) auto
    then show ?thesis by simp
  qed
  have inorb: "?f j \<in> orbit g x" for j by (simp add: orbit_def)
  have cross: "?f i \<noteq> backPair g (?f j)" for i j
    using orbit_back_disjoint [OF assms] inorb [of i] inorb [of j] by blast
  have inj: "inj_on ?h {0<..?n}"
  proof (rule inj_onI)
    fix i j
    assume i: "i \<in> {0<..?n}" and j: "j \<in> {0<..?n}" and "?h i = ?h j"
    then have "?f i = ?f j" by simp
    with ne [OF i j] show "i = j" by blast
  qed
  have s: "set [1..<Suc ?n] = {0<..?n}" by auto
  have d1: "distinct (map ?h [1..<Suc ?n])"
    unfolding distinct_map s using inj by simp
  have sm: "set (map ?h [1..<Suc ?n]) = ?h ` {0<..?n}" unfolding set_map s ..
  have d2: "distinct ys" if "ys \<in> set (map ?h [1..<Suc ?n])" for ys
    using that cross unfolding sm by auto
  have d3: "set ys \<inter> set zs = {}"
    if "ys \<in> set (map ?h [1..<Suc ?n])" "zs \<in> set (map ?h [1..<Suc ?n])" "ys \<noteq> zs" for ys zs
  proof -
    from that obtain i j where ij: "ys = ?h i" "zs = ?h j" "i \<in> {0<..?n}" "j \<in> {0<..?n}"
      unfolding sm by blast
    with that(3) have "i \<noteq> j" by auto
    from ne [OF ij(3,4) this] cross [of i j] cross [of j i] backPair_inj [of g "?f i" "?f j"]
    show ?thesis unfolding ij(1,2) by auto
  qed
  show ?thesis
    unfolding marksOf_orbitList [OF assms]
    by (rule distinct_concat [OF d1 d2 d3])
qed

section \<open>The invariant of the enumeration\<close>

lemma buildCurve_trace:
  assumes wf: "wellFormed g" and v: "validPair g (i, d)"
    and bound: "period g (i, d) < MAX_SEGMENTS"
  shows "\<exists>c' g'. buildCurve (MirrorCurve_new (lineOf (rows g) (cols g) (mirrorAt g i) i) d) g
                    = (Inr True, c', g')
       \<and> steps c' = orbitList g (i, d) (period g (i, d)) \<and> isClosed c' \<and> \<not> leftGrid c'
       \<and> sameLines g g'
       \<and> usedPairs g' = usedPairs g \<union> orbit g (i, d) \<union> backPair g ` orbit g (i, d)"
proof -
  let ?l = "lineOf (rows g) (cols g) (mirrorAt g i) i"
  let ?c = "MirrorCurve_new ?l d"
  let ?g1 = "markDirectionUsed i d g"
  let ?n = "period g (i, d)"
  have id: "line_id ?l = i" by (simp add: lineOf_def)
  have b: "buildCurve ?c g = buildCurve_loop ?l d ?c ?g1"
    by (simp add: buildCurve_def MirrorCurve_new_def id)
  have iin: "i \<in> set (allLineIds (rows g) (cols g))" using v by (simp add: validPair_def)
  have u1: "usedPairs ?g1 = insert (i, d) (usedPairs g)"
    by (rule usedPairs_mark [OF wellFormed_used [OF wf iin]])
  have "\<exists>c' g'. buildCurve_loop ?l d ?c ?g1 = (Inr True, c', g')
           \<and> steps c' = orbitList g (i, d) ?n
           \<and> isClosed c' \<and> \<not> leftGrid c' \<and> sameLines g g'
           \<and> usedPairs g' = usedPairs ?g1
                \<union> (\<Union>j\<in>{0<..?n}.
                      {(stepPair g ^^ j) (i, d), backPair g ((stepPair g ^^ j) (i, d))})"
    by (rule buildCurve_loop_trace [OF wf v bound, where k = 0 and m = ?n])
       (simp_all add: period_props(1) [OF wf v] sameLines_markDirectionUsed
          MirrorCurve_new_def orbitList_def id)
  then obtain c' g' where r: "buildCurve_loop ?l d ?c ?g1 = (Inr True, c', g')"
    and p: "steps c' = orbitList g (i, d) ?n" "isClosed c'" "\<not> leftGrid c'" "sameLines g g'"
    and u: "usedPairs g' = usedPairs ?g1
                \<union> (\<Union>j\<in>{0<..?n}.
                      {(stepPair g ^^ j) (i, d), backPair g ((stepPair g ^^ j) (i, d))})"
    by blast
  have "(\<Union>j\<in>{0<..?n}. {(stepPair g ^^ j) (i, d), backPair g ((stepPair g ^^ j) (i, d))})
        = orbit g (i, d) \<union> backPair g ` orbit g (i, d)"
    unfolding orbit_image [OF wf v] by auto
  with u u1 orbit_self [of "(i, d)" g]
  have "usedPairs g' = usedPairs g \<union> orbit g (i, d) \<union> backPair g ` orbit g (i, d)"
    by auto
  with b r p show ?thesis by simp
qed

lemma curveInv_wf: "curveInv g \<Longrightarrow> wellFormed g"
  unfolding curveInv_def by blast

lemma curveInv_invalid:
  "curveInv g \<Longrightarrow> x \<in> allPairs g \<Longrightarrow> \<not> validPair g x \<Longrightarrow> x \<in> usedPairs g"
  unfolding curveInv_def by blast

lemma curveInv_step:
  "curveInv g \<Longrightarrow> validPair g x \<Longrightarrow> x \<in> usedPairs g \<Longrightarrow> stepPair g x \<in> usedPairs g"
  unfolding curveInv_def by blast

lemma curveInv_back:
  "curveInv g \<Longrightarrow> validPair g x \<Longrightarrow> x \<in> usedPairs g \<Longrightarrow> backPair g x \<in> usedPairs g"
  unfolding curveInv_def by blast

lemma used_closed_funpow:
  assumes "curveInv g" and "validPair g y" and "y \<in> usedPairs g"
  shows "(stepPair g ^^ k) y \<in> usedPairs g"
proof (induction k)
  case 0
  then show ?case using assms(3) by simp
next
  case (Suc k)
  have wf: "wellFormed g" using assms(1) by (simp add: curveInv_def)
  have "validPair g ((stepPair g ^^ k) y)" by (rule validPair_funpow [OF wf assms(2)])
  from curveInv_step [OF assms(1) this Suc.IH] show ?case by simp
qed

lemma orbit_unused:
  assumes inv: "curveInv g" and v: "validPair g x" and nu: "x \<notin> usedPairs g"
  shows "(orbit g x \<union> backPair g ` orbit g x) \<inter> usedPairs g = {}"
proof -
  have wf: "wellFormed g" using inv by (simp add: curveInv_def)
  note pp = period_props [OF wf v]
  have a: "y \<notin> usedPairs g" if "y \<in> orbit g x" for y
  proof
    assume yu: "y \<in> usedPairs g"
    from that obtain j where j: "0 < j" "j \<le> period g x" "y = (stepPair g ^^ j) x"
      unfolding orbit_image [OF wf v] by auto
    have "(stepPair g ^^ (period g x - j)) y = (stepPair g ^^ (period g x - j + j)) x"
      unfolding j(3) by (simp only: funpow_add o_apply)
    also have "\<dots> = x" using j(2) pp(2) by simp
    finally have "x = (stepPair g ^^ (period g x - j)) y" by simp
    with used_closed_funpow [OF inv orbit_valid [OF wf v that] yu, of "period g x - j"] nu
    show False by simp
  qed
  have b: "backPair g z \<notin> usedPairs g" if "z \<in> orbit g x" for z
  proof
    assume "backPair g z \<in> usedPairs g"
    moreover have "validPair g (backPair g z)"
      by (rule validPair_back [OF wf orbit_valid [OF wf v that]])
    ultimately have "backPair g (backPair g z) \<in> usedPairs g"
      using curveInv_back [OF inv] by blast
    with a [OF that] show False by simp
  qed
  from a b show ?thesis by auto
qed

lemma curveInv_after:
  assumes inv: "curveInv g" and v: "validPair g x" and sl: "sameLines g g'"
    and u: "usedPairs g' = usedPairs g \<union> orbit g x \<union> backPair g ` orbit g x"
  shows "curveInv g'"
proof -
  have wf: "wellFormed g" using inv by (simp add: curveInv_def)
  have wf': "wellFormed g'" by (rule wellFormed_sameLines [OF wf sl])
  note same = sameLines_allPairs [OF sl] sameLines_validPair [OF sl]
    sameLines_stepPair [OF sl] sameLines_backPair [OF sl]
  have c2: "y \<in> usedPairs g'" if "y \<in> allPairs g" "\<not> validPair g y" for y
    using curveInv_invalid [OF inv that] u by simp
  have c3: "stepPair g y \<in> usedPairs g' \<and> backPair g y \<in> usedPairs g'"
    if vy: "validPair g y" and yu: "y \<in> usedPairs g'" for y
  proof -
    from yu u consider "y \<in> usedPairs g" | "y \<in> orbit g x" | "y \<in> backPair g ` orbit g x"
      by blast
    then show ?thesis
    proof cases
      case 1
      with curveInv_step [OF inv vy] curveInv_back [OF inv vy] u show ?thesis by simp
    next
      case 2
      with u orbit_step [OF 2] show ?thesis by simp
    next
      case 3
      then obtain z where z: "z \<in> orbit g x" "y = backPair g z" by blast
      from orbit_pred [OF wf v z(1)] obtain w where w: "w \<in> orbit g x" "z = stepPair g w"
        by blast
      have "stepPair g y = backPair g w"
        unfolding z(2) w(2)
        by (rule stepPair_backPair_stepPair [OF orbit_valid [OF wf v w(1)]])
      with w(1) z u show ?thesis by simp
    qed
  qed
  show ?thesis
    unfolding curveInv_def same using wf' c2 c3 by blast
qed

section \<open>Finding the next curve\<close>

lemma usedPairs_iff:
  "usedDirections g i = Some U \<Longrightarrow> (i, d) \<in> usedPairs g \<longleftrightarrow> d \<in> U"
  by (simp add: usedPairs_def)

lemma getUnusedDirections_wf:
  assumes "wellFormed g" and "i \<in> set (allLineIds (rows g) (cols g))"
  shows "getUnusedDirections g i = filter (\<lambda>d. (i, d) \<notin> usedPairs g) [NW, NE, SW, SE]"
proof -
  from wellFormed_used [OF assms] obtain U where U: "usedDirections g i = Some U" by blast
  show ?thesis
    using assms(2)
    by (simp add: getUnusedDirections_def wellFormed_getGridLine [OF assms(1)] U
          usedPairs_iff [OF U])
qed

lemma scan_skip:
  "\<forall>e\<in>set pre. getUnusedDirections g (fst e) = []
   \<Longrightarrow> findNextCurve_scan (pre @ rest) g = findNextCurve_scan rest g"
  by (induction pre) (auto simp: Let_def)

lemma scan_hit:
  "getUnusedDirections g i \<noteq> []
   \<Longrightarrow> findNextCurve_scan ((i, l) # post) g
       = (case buildCurve (MirrorCurve_new l (hd (getUnusedDirections g i))) g of
            (Inr success, c', g') \<Rightarrow>
              if success then (Some c', g') else findNextCurve_scan post g'
          | (Inl e, c', g') \<Rightarrow> findNextCurve_scan post g')"
  by (simp add: Let_def)

lemma findNextCurve_cases:
  assumes inv: "curveInv g" and bound: "card (allPairs g) < MAX_SEGMENTS"
  shows "(allPairs g \<subseteq> usedPairs g \<and> findNextCurve g = (None, g))
       \<or> (\<exists>x c g'. validPair g x \<and> x \<notin> usedPairs g \<and> findNextCurve g = (Some c, g')
              \<and> steps c = orbitList g x (period g x) \<and> isClosed c \<and> \<not> leftGrid c
              \<and> sameLines g g'
              \<and> usedPairs g' = usedPairs g \<union> orbit g x \<union> backPair g ` orbit g x)"
proof -
  have wf: "wellFormed g" by (rule curveInv_wf [OF inv])
  let ?R = "rows g" and ?C = "cols g"
  let ?ids = "allLineIds ?R ?C"
  let ?P = "\<lambda>e. getUnusedDirections g (fst e) \<noteq> []"
  have lines: "gridLines g = map (\<lambda>i. (i, lineOf ?R ?C (mirrorAt g i) i)) ?ids"
    using wellFormed_lines [OF wf] by (simp add: linesOf_def)
  show ?thesis
  proof (cases "\<exists>e\<in>set (gridLines g). ?P e")
    case False
    then have none: "\<forall>e\<in>set (gridLines g). getUnusedDirections g (fst e) = []" by blast
    have "findNextCurve g = (None, g)"
      using scan_skip [OF none, of "[]"] by (simp add: findNextCurve_def)
    moreover have "allPairs g \<subseteq> usedPairs g"
    proof
      fix x assume "x \<in> allPairs g"
      then have i: "fst x \<in> set ?ids" by (auto simp: allPairs_def)
      then have "(fst x, lineOf ?R ?C (mirrorAt g (fst x)) (fst x)) \<in> set (gridLines g)"
        unfolding lines by auto
      with none have "getUnusedDirections g (fst x) = []" by force
      then have "(fst x, snd x) \<in> usedPairs g"
        unfolding getUnusedDirections_wf [OF wf i]
        by (cases "snd x") (auto split: if_splits)
      then show "x \<in> usedPairs g" by simp
    qed
    ultimately show ?thesis by blast
  next
    case True
    from split_list_first_prop [OF True]
    obtain pre e post where sp: "gridLines g = pre @ e # post" "?P e"
      "\<forall>e'\<in>set pre. \<not> ?P e'" by blast
    have "e \<in> set (gridLines g)" using sp(1) by simp
    then obtain i where e: "e = (i, lineOf ?R ?C (mirrorAt g i) i)" and i: "i \<in> set ?ids"
      unfolding lines by auto
    let ?d = "hd (getUnusedDirections g i)"
    have mem: "?d \<in> set (getUnusedDirections g i)" using sp(2) e by simp
    have "\<forall>d' \<in> set (getUnusedDirections g i). (i, d') \<notin> usedPairs g"
      unfolding getUnusedDirections_wf [OF wf i] by simp
    with mem have nu: "(i, ?d) \<notin> usedPairs g" by blast
    have "(i, ?d) \<in> allPairs g" using i by (simp add: allPairs_def)
    with curveInv_invalid [OF inv this] nu have v: "validPair g (i, ?d)" by blast
    have pb: "period g (i, ?d) < MAX_SEGMENTS"
      using period_props(3) [OF wf v] bound by simp
    from buildCurve_trace [OF wf v pb]
    obtain c' g' where
      b: "buildCurve (MirrorCurve_new (lineOf ?R ?C (mirrorAt g i) i) ?d) g = (Inr True, c', g')"
      and p: "steps c' = orbitList g (i, ?d) (period g (i, ?d))" "isClosed c'" "\<not> leftGrid c'"
        "sameLines g g'"
        "usedPairs g' = usedPairs g \<union> orbit g (i, ?d) \<union> backPair g ` orbit g (i, ?d)"
      by blast
    have skip: "\<forall>e'\<in>set pre. getUnusedDirections g (fst e') = []" using sp(3) by simp
    have "findNextCurve g = findNextCurve_scan (e # post) g"
      unfolding findNextCurve_def sp(1) by (rule scan_skip [OF skip])
    also have "\<dots> = (Some c', g')"
      unfolding e using sp(2) e b by (simp add: scan_hit)
    finally show ?thesis using v nu p by blast
  qed
qed

section \<open>The enumeration of all curves\<close>

lemma findAllCurves_loop_cover:
  "curveInv g \<Longrightarrow> card (allPairs g) < MAX_SEGMENTS \<Longrightarrow>
   \<exists>cs' g'. findAllCurves_loop cs g = Some (cs @ cs', g')
     \<and> (\<forall>c\<in>set cs'. isClosed c \<and> \<not> leftGrid c)
     \<and> distinct (concat (map (\<lambda>c. marksOf (steps c)) cs'))
     \<and> set (concat (map (\<lambda>c. marksOf (steps c)) cs')) = allPairs g - usedPairs g
     \<and> sameLines g g' \<and> allPairs g \<subseteq> usedPairs g'"
proof (induction "card (allPairs g - usedPairs g)" arbitrary: g cs rule: less_induct)
  case less
  note inv = less.prems(1) and bound = less.prems(2)
  have wf: "wellFormed g" by (rule curveInv_wf [OF inv])
  from findNextCurve_cases [OF inv bound]
  consider (none) "allPairs g \<subseteq> usedPairs g" "findNextCurve g = (None, g)"
    | (some) x c g1 where "validPair g x" "x \<notin> usedPairs g" "findNextCurve g = (Some c, g1)"
        "steps c = orbitList g x (period g x)" "isClosed c" "\<not> leftGrid c" "sameLines g g1"
        "usedPairs g1 = usedPairs g \<union> orbit g x \<union> backPair g ` orbit g x"
    by blast
  then show ?case
  proof cases
    case none
    have "findAllCurves_loop cs g = Some (cs @ [], g)"
      by (subst findAllCurves_loop.simps) (simp add: none(2))
    moreover have "allPairs g - usedPairs g = {}" using none(1) by blast
    ultimately show ?thesis using none(1) sameLines_refl [of g] by (intro exI [of _ "[]"]) auto
  next
    case some
    let ?O = "orbit g x \<union> backPair g ` orbit g x"
    have inv1: "curveInv g1" by (rule curveInv_after [OF inv some(1,7,8)])
    have ap: "allPairs g1 = allPairs g" by (rule sameLines_allPairs [OF some(7)])
    have bound1: "card (allPairs g1) < MAX_SEGMENTS" using bound ap by simp
    have xin: "x \<in> allPairs g" by (rule validPair_allPairs [OF some(1)])
    have "allPairs g1 - usedPairs g1 \<subset> allPairs g - usedPairs g"
      using some(2,8) xin orbit_self [of x g] unfolding ap by blast
    then have less': "card (allPairs g1 - usedPairs g1) < card (allPairs g - usedPairs g)"
      by (intro psubset_card_mono) (simp_all add: finite_allPairs)
    from less.hyps [OF less' inv1 bound1, of "cs @ [c]"]
    obtain cs1 g' where r: "findAllCurves_loop (cs @ [c]) g1 = Some ((cs @ [c]) @ cs1, g')"
      and p: "\<forall>c\<in>set cs1. isClosed c \<and> \<not> leftGrid c"
        "distinct (concat (map (\<lambda>c. marksOf (steps c)) cs1))"
        "set (concat (map (\<lambda>c. marksOf (steps c)) cs1)) = allPairs g1 - usedPairs g1"
        "sameLines g1 g'" "allPairs g1 \<subseteq> usedPairs g'"
      by blast
    have run: "findAllCurves_loop cs g = Some (cs @ (c # cs1), g')"
      by (subst findAllCurves_loop.simps) (simp add: some(3) r)
    have mset: "set (marksOf (steps c)) = ?O"
      unfolding some(4) by (rule set_marksOf_orbit [OF wf some(1)])
    have mdist: "distinct (marksOf (steps c))"
      unfolding some(4) by (rule distinct_marksOf_orbit [OF wf some(1)])
    have Oall: "?O \<subseteq> allPairs g"
      using orbit_valid [OF wf some(1)] validPair_back [OF wf] validPair_allPairs by blast
    have Ounused: "?O \<inter> usedPairs g = {}" by (rule orbit_unused [OF inv some(1,2)])
    have d: "distinct (concat (map (\<lambda>c. marksOf (steps c)) (c # cs1)))"
      using mdist p(2) p(3) mset some(8) by auto
    have s: "set (concat (map (\<lambda>c. marksOf (steps c)) (c # cs1))) = allPairs g - usedPairs g"
      using p(3) mset some(8) Oall Ounused unfolding ap by auto
    have cl: "\<forall>c'\<in>set (c # cs1). isClosed c' \<and> \<not> leftGrid c'" using p(1) some(5,6) by simp
    have sl: "sameLines g g'" by (rule sameLines_trans [OF some(7) p(4)])
    have all: "allPairs g \<subseteq> usedPairs g'" using p(5) ap by simp
    from run cl d s sl all show ?thesis by blast
  qed
qed

lemma preSeeded_iff:
  "1 \<le> R \<Longrightarrow> 1 \<le> C \<Longrightarrow> i \<in> set (allLineIds R C)
   \<Longrightarrow> d \<in> preSeeded R C i \<longleftrightarrow> connectionsOf R C i d = None"
  by (cases i; cases d)
     (auto simp: preSeeded_def connectionsOf_def mem_allLineIds Let_def)

lemma resetUsedDirections_eq:
  assumes "wellFormed g"
  shows "resetUsedDirections g
         = g\<lparr>usedDirections := (\<lambda>k. if k \<in> set (allLineIds (rows g) (cols g))
                                     then Some (preSeeded (rows g) (cols g) k)
                                     else usedDirections g k)\<rparr>"
  unfolding resetUsedDirections_def
  by (rule initializeUsedDirections_linesOf [OF wellFormed_lines [OF assms]])

lemma sameLines_reset:
  assumes "wellFormed g" shows "sameLines g (resetUsedDirections g)"
proof -
  have "set (allLineIds (rows g) (cols g)) \<subseteq> dom (usedDirections g)"
    using assms by (simp add: wellFormed_def)
  then have "dom (\<lambda>k. if k \<in> set (allLineIds (rows g) (cols g))
                       then Some (preSeeded (rows g) (cols g) k)
                       else usedDirections g k) = dom (usedDirections g)"
    by (auto simp: dom_def split: if_splits)
  then show ?thesis
    by (simp add: resetUsedDirections_eq [OF assms] sameLines_def)
qed

lemma usedPairs_reset:
  assumes "wellFormed g" and "x \<in> allPairs g"
  shows "x \<in> usedPairs (resetUsedDirections g) \<longleftrightarrow> \<not> validPair g x"
proof -
  have i: "fst x \<in> set (allLineIds (rows g) (cols g))"
    using assms(2) by (auto simp: allPairs_def)
  have "x \<in> usedPairs (resetUsedDirections g) \<longleftrightarrow> snd x \<in> preSeeded (rows g) (cols g) (fst x)"
    using i by (simp add: resetUsedDirections_eq [OF assms(1)] usedPairs_def)
  also have "\<dots> \<longleftrightarrow> connectionsOf (rows g) (cols g) (fst x) (snd x) = None"
    using assms(1) i by (intro preSeeded_iff) (simp_all add: wellFormed_def)
  finally show ?thesis using i by (auto simp: validPair_def)
qed

lemma curveInv_reset:
  assumes "wellFormed g"
  shows "curveInv (resetUsedDirections g)"
proof -
  let ?g = "resetUsedDirections g"
  have sl: "sameLines g ?g" by (rule sameLines_reset [OF assms])
  have wf': "wellFormed ?g" by (rule sameLines_resetUsedDirections [OF assms])
  note same = sameLines_allPairs [OF sl] sameLines_validPair [OF sl]
  have a: "x \<in> usedPairs ?g" if "x \<in> allPairs g" "\<not> validPair g x" for x
    using usedPairs_reset [OF assms that(1)] that(2) by simp
  have b: "False" if "validPair g x" "x \<in> usedPairs ?g" for x
    using usedPairs_reset [OF assms validPair_allPairs [OF that(1)]] that by simp
  show ?thesis
    unfolding curveInv_def same using wf' a b by blast
qed

section \<open>The curves cover the grid\<close>

lemma isDirectionUsed_iff: "isDirectionUsed g i d \<longleftrightarrow> (i, d) \<in> usedPairs g"
  by (auto simp: isDirectionUsed_def usedPairs_def split: option.splits)

lemma wellFormed_keys:
  "wellFormed g \<Longrightarrow> map fst (gridLines g) = allLineIds (rows g) (cols g)"
  by (simp add: wellFormed_lines linesOf_def comp_def)

text \<open>
  C1, as the specification states it, fails on the 1 x 1 grid. \<open>findAllCurves\<close> returns one
  curve with five steps. The pair \<open>(h_0_0, SE)\<close> belongs to a grid line and is not
  pre-seeded at reset time, yet it is a step of no curve: it is marked as the
  opposite of an incoming direction. And the pair \<open>(h_0_0, SW)\<close> occurs twice in the
  curve, as its first step and as its closing step.
\<close>

theorem steps_not_partition_counterexample:
  "map_option (\<lambda>r. map steps (fst r)) (findAllCurves grid_1x1)
     = Some [[((CHR ''h'', 0, 0), SW), ((CHR ''v'', 0, 0), SE), ((CHR ''h'', 1, 0), NE),
              ((CHR ''v'', 0, 1), NW), ((CHR ''h'', 0, 0), SW)]]
   \<and> getGridLine grid_1x1 (CHR ''h'', 0, 0) \<noteq> None
   \<and> \<not> isDirectionUsed (resetUsedDirections grid_1x1) (CHR ''h'', 0, 0) SE
   \<and> ((CHR ''h'', 0, 0), SE)
       \<notin> set [((CHR ''h'', 0, 0), SW), ((CHR ''v'', 0, 0), SE), ((CHR ''h'', 1, 0), NE),
              ((CHR ''v'', 0, 1), NW), ((CHR ''h'', 0, 0), SW)]
   \<and> \<not> distinct [((CHR ''h'', 0, 0), SW), ((CHR ''v'', 0, 0), SE), ((CHR ''h'', 1, 0), NE),
              ((CHR ''v'', 0, 1), NW), ((CHR ''h'', 0, 0), SW)]"
  by (simp add: findAllCurves_def findAllCurves_loop.simps grid_1x1_eval grid_defs curve_defs
        steps_def isDirectionUsed_def Let_def)


text \<open>
  C1, amended. For every grid the program can hold (at least one row and one column, any
  interior mirrors) that has fewer than 250000 grid lines, so that no walk reaches the
  cap \<open>MAX_SEGMENTS\<close>, \<open>findAllCurves\<close> resets the used directions and returns a list of
  curves, all of them closed. Take, for every step of every curve after its first step,
  the two pairs that \<open>buildCurve\<close> marks for it: the step (grid line, direction) itself
  and the same grid line with the opposite of the direction of the step before. These
  pairs are all different, and they are exactly the (grid line, direction) pairs that
  were not pre-seeded as used at reset time. Afterwards every direction of every grid
  line is marked used.
\<close>

theorem findAllCurves_cover:
  assumes "reachable g" and "4 * length (gridLines g) < MAX_SEGMENTS"
  shows "\<exists>cs g'. findAllCurves g = Some (cs, g')
     \<and> (\<forall>c\<in>set cs. isClosed c \<and> \<not> leftGrid c)
     \<and> distinct (concat (map (\<lambda>c. marksOf (steps c)) cs))
     \<and> set (concat (map (\<lambda>c. marksOf (steps c)) cs))
         = {(i, d). i \<in> fst ` set (gridLines g)
                    \<and> \<not> isDirectionUsed (resetUsedDirections g) i d}
     \<and> (\<forall>i \<in> fst ` set (gridLines g). \<forall>d. isDirectionUsed g' i d)"
proof -
  let ?g0 = "resetUsedDirections g"
  have wf: "wellFormed g" by (rule reachable_wellFormed [OF assms(1)])
  have inv: "curveInv ?g0" by (rule curveInv_reset [OF wf])
  have sl: "sameLines g ?g0" by (rule sameLines_reset [OF wf])
  have ap: "allPairs ?g0 = allPairs g" by (rule sameLines_allPairs [OF sl])
  have keys: "map fst (gridLines g) = allLineIds (rows g) (cols g)"
    by (rule wellFormed_keys [OF wf])
  have len: "length (gridLines g) = length (allLineIds (rows g) (cols g))"
    using arg_cong [OF keys, of length] by simp
  have ks: "fst ` set (gridLines g) = set (allLineIds (rows g) (cols g))"
    using arg_cong [OF keys, of set] by simp
  have bound: "card (allPairs ?g0) < MAX_SEGMENTS"
    using assms(2) by (simp add: ap card_allPairs len)
  from findAllCurves_loop_cover [OF inv bound, of "[]"]
  obtain cs g' where r: "findAllCurves_loop [] ?g0 = Some (cs, g')"
    and p: "\<forall>c\<in>set cs. isClosed c \<and> \<not> leftGrid c"
      "distinct (concat (map (\<lambda>c. marksOf (steps c)) cs))"
      "set (concat (map (\<lambda>c. marksOf (steps c)) cs)) = allPairs ?g0 - usedPairs ?g0"
      "allPairs ?g0 \<subseteq> usedPairs g'"
    by auto
  have s: "allPairs ?g0 - usedPairs ?g0
           = {(i, d). i \<in> fst ` set (gridLines g) \<and> \<not> isDirectionUsed ?g0 i d}"
    unfolding ap ks by (auto simp: allPairs_def isDirectionUsed_iff)
  have u: "\<forall>i \<in> fst ` set (gridLines g). \<forall>d. isDirectionUsed g' i d"
    using p(4) unfolding ap ks by (auto simp: allPairs_def isDirectionUsed_iff)
  show ?thesis
    using r p(1,2) p(3) [unfolded s] u by (auto simp: findAllCurves_def)
qed

theorem findAllCurves_cover_witness:
  "4 * length (gridLines grid_1x1) < MAX_SEGMENTS
   \<and> findAllCurves grid_1x1 \<noteq> None
   \<and> distinct (concat (map (\<lambda>c. marksOf (steps c)) (fst (the (findAllCurves grid_1x1)))))"
proof -
  have b: "4 * length (gridLines grid_1x1) < MAX_SEGMENTS"
    by (simp add: grid_1x1_eval MAX_SEGMENTS_def)
  from findAllCurves_cover [OF reachable_grid_1x1 b] b show ?thesis by auto
qed

section \<open>The order in which curves are found\<close>

lemma iteration_extends:
  "\<exists>ls ds. curve_gridLines (iteration_curve (buildCurve_iteration cur d c g))
               = curve_gridLines c @ ls
          \<and> directions (iteration_curve (buildCurve_iteration cur d c g)) = directions c @ ds
          \<and> length ls = length ds"
  by (auto simp: buildCurve_iteration_def addSegment_def Let_def
        split: sum.splits option.splits)

lemma buildCurve_loop_extends:
  "\<exists>ls ds. curve_gridLines (fst (snd (buildCurve_loop cur d c g))) = curve_gridLines c @ ls
          \<and> directions (fst (snd (buildCurve_loop cur d c g))) = directions c @ ds
          \<and> length ls = length ds"
proof (induction cur d c g rule: buildCurve_loop.induct)
  case (1 cur d c g)
  show ?case
  proof (cases "length (curve_gridLines c) < MAX_SEGMENTS")
    case False
    then show ?thesis by (simp add: buildCurve_loop.simps [of cur d c g])
  next
    case True
    from iteration_extends [of cur d c g] obtain ls ds where
      e: "curve_gridLines (iteration_curve (buildCurve_iteration cur d c g))
            = curve_gridLines c @ ls"
         "directions (iteration_curve (buildCurve_iteration cur d c g)) = directions c @ ds"
         "length ls = length ds" by blast
    show ?thesis
    proof (cases "buildCurve_iteration cur d c g")
      case (Done r0 c0 g0)
      with True e show ?thesis by (simp add: buildCurve_loop.simps [of cur d c g])
    next
      case (Next cur1 d1 c1 g1)
      from "1.IH" [OF True Next] obtain ls' ds' where
        e': "curve_gridLines (fst (snd (buildCurve_loop cur1 d1 c1 g1))) = curve_gridLines c1 @ ls'"
          "directions (fst (snd (buildCurve_loop cur1 d1 c1 g1))) = directions c1 @ ds'"
          "length ls' = length ds'" by blast
      have "curve_gridLines (fst (snd (buildCurve_loop cur d c g))) = curve_gridLines c @ (ls @ ls')"
        "directions (fst (snd (buildCurve_loop cur d c g))) = directions c @ (ds @ ds')"
        using True Next e e' by (simp_all add: buildCurve_loop.simps [of cur d c g])
      moreover have "length (ls @ ls') = length (ds @ ds')" using e(3) e'(3) by simp
      ultimately show ?thesis by blast
    qed
  qed
qed

lemma buildCurve_first_step:
  "hd (steps (fst (snd (buildCurve (MirrorCurve_new l d) g)))) = (line_id l, d)"
proof -
  let ?c = "MirrorCurve_new l d"
  from buildCurve_loop_extends [of l d ?c "markDirectionUsed (line_id l) d g"]
  obtain ls ds where
    "curve_gridLines (fst (snd (buildCurve ?c g))) = [l] @ ls"
    "directions (fst (snd (buildCurve ?c g))) = [d] @ ds"
    by (auto simp: buildCurve_def MirrorCurve_new_def)
  then show ?thesis by (simp add: steps_def)
qed

text \<open>
  C7. In every grid the program can hold, the grid lines are stored, and so scanned by
  \<open>findNextCurve\<close>, in the order all horizontal lines row by row, then all vertical lines
  row by row. If no grid line has an unused direction, \<open>findNextCurve\<close> returns no curve and
  leaves the grid as it is. Otherwise, at the first grid line \<open>i\<close> that has an unused
  direction, the unused directions are listed in the order NW, NE, SW, SE, the trace is
  \<open>buildCurve\<close> started on that line with the first of them, and the first step of the traced
  curve is that line with that direction. (When \<open>buildCurve\<close> does not succeed, the scan goes
  on with the lines after \<open>i\<close>.)
\<close>

theorem findNextCurve_order:
  assumes "reachable g"
  shows "map fst (gridLines g) = horizontalIds (rows g) (cols g) @ verticalIds (rows g) (cols g)
     \<and> ((\<forall>i \<in> fst ` set (gridLines g). getUnusedDirections g i = [])
          \<longrightarrow> findNextCurve g = (None, g))
     \<and> (\<forall>pre i l post.
          gridLines g = pre @ (i, l) # post
          \<and> (\<forall>j \<in> fst ` set pre. getUnusedDirections g j = [])
          \<and> getUnusedDirections g i \<noteq> []
          \<longrightarrow> getUnusedDirections g i
                = filter (\<lambda>d. \<not> isDirectionUsed g i d) [NW, NE, SW, SE]
              \<and> findNextCurve g
                = (case buildCurve (MirrorCurve_new l (hd (getUnusedDirections g i))) g of
                     (Inr success, c', g') \<Rightarrow>
                       if success then (Some c', g') else findNextCurve_scan post g'
                   | (Inl e, c', g') \<Rightarrow> findNextCurve_scan post g')
              \<and> hd (steps (fst (snd
                   (buildCurve (MirrorCurve_new l (hd (getUnusedDirections g i))) g))))
                = (i, hd (getUnusedDirections g i)))"
proof -
  have wf: "wellFormed g" by (rule reachable_wellFormed [OF assms])
  let ?R = "rows g" and ?C = "cols g"
  have order: "map fst (gridLines g) = horizontalIds ?R ?C @ verticalIds ?R ?C"
    using wellFormed_keys [OF wf] by (simp add: allLineIds_def)
  have none: "findNextCurve g = (None, g)"
    if "\<forall>i \<in> fst ` set (gridLines g). getUnusedDirections g i = []"
    using scan_skip [of "gridLines g" g "[]"] that by (simp add: findNextCurve_def)
  have first: "getUnusedDirections g i
                = filter (\<lambda>d. \<not> isDirectionUsed g i d) [NW, NE, SW, SE]
              \<and> findNextCurve g
                = (case buildCurve (MirrorCurve_new l (hd (getUnusedDirections g i))) g of
                     (Inr success, c', g') \<Rightarrow>
                       if success then (Some c', g') else findNextCurve_scan post g'
                   | (Inl e, c', g') \<Rightarrow> findNextCurve_scan post g')
              \<and> hd (steps (fst (snd
                   (buildCurve (MirrorCurve_new l (hd (getUnusedDirections g i))) g))))
                = (i, hd (getUnusedDirections g i))"
    if sp: "gridLines g = pre @ (i, l) # post"
      and skip: "\<forall>j \<in> fst ` set pre. getUnusedDirections g j = []"
      and hit: "getUnusedDirections g i \<noteq> []"
    for pre i l post
  proof -
    have "(i, l) \<in> set (linesOf ?R ?C (mirrorAt g))"
      using sp wellFormed_lines [OF wf] by simp
    then have i: "i \<in> set (allLineIds ?R ?C)" and l: "l = lineOf ?R ?C (mirrorAt g i) i"
      by (auto simp: linesOf_def)
    have id: "line_id l = i" using l by (simp add: lineOf_def)
    have a: "getUnusedDirections g i
                = filter (\<lambda>d. \<not> isDirectionUsed g i d) [NW, NE, SW, SE]"
      by (simp add: getUnusedDirections_wf [OF wf i] isDirectionUsed_iff)
    have skip': "\<forall>e\<in>set pre. getUnusedDirections g (fst e) = []" using skip by simp
    have "findNextCurve g = findNextCurve_scan ((i, l) # post) g"
      unfolding findNextCurve_def sp by (rule scan_skip [OF skip'])
    then have b: "findNextCurve g
                = (case buildCurve (MirrorCurve_new l (hd (getUnusedDirections g i))) g of
                     (Inr success, c', g') \<Rightarrow>
                       if success then (Some c', g') else findNextCurve_scan post g'
                   | (Inl e, c', g') \<Rightarrow> findNextCurve_scan post g')"
      by (simp only: scan_hit [OF hit])
    show ?thesis using a b buildCurve_first_step [of l _ g] id by simp
  qed
  show ?thesis using order none first by blast
qed

theorem findNextCurve_order_witness:
  "map fst (gridLines grid_1x1)
     = [(CHR ''h'', 0, 0), (CHR ''h'', 1, 0), (CHR ''v'', 0, 0), (CHR ''v'', 0, 1)]
   \<and> getUnusedDirections grid_1x1 (CHR ''h'', 0, 0) = [SW, SE]
   \<and> hd (steps (fst (snd (buildCurve
        (MirrorCurve_new (the (getGridLine grid_1x1 (CHR ''h'', 0, 0))) SW) grid_1x1))))
       = ((CHR ''h'', 0, 0), SW)
   \<and> findAllCurves grid_1x1 \<noteq> None
   \<and> findNextCurve (snd (the (findAllCurves grid_1x1)))
       = (None, snd (the (findAllCurves grid_1x1)))"
proof -
  obtain l post where sp: "gridLines grid_1x1 = [] @ ((CHR ''h'', 0, 0), l) # post"
    and l: "getGridLine grid_1x1 (CHR ''h'', 0, 0) = Some l"
    by (simp add: grid_1x1_eval getGridLine_def)
  have u: "getUnusedDirections grid_1x1 (CHR ''h'', 0, 0) = [SW, SE]"
    by (simp add: grid_1x1_eval getUnusedDirections_def getGridLine_def)
  have keys: "map fst (gridLines grid_1x1)
     = [(CHR ''h'', 0, 0), (CHR ''h'', 1, 0), (CHR ''v'', 0, 0), (CHR ''v'', 0, 1)]"
    by (simp add: grid_1x1_eval)
  from findNextCurve_order [OF reachable_grid_1x1] sp u
  have first: "hd (steps (fst (snd (buildCurve
          (MirrorCurve_new l (hd (getUnusedDirections grid_1x1 (CHR ''h'', 0, 0)))) grid_1x1))))
        = ((CHR ''h'', 0, 0), hd (getUnusedDirections grid_1x1 (CHR ''h'', 0, 0)))"
    by force
  have "\<exists>cs g'. findAllCurves grid_1x1 = Some (cs, g')
          \<and> (\<forall>i \<in> fst ` set (gridLines g'). getUnusedDirections g' i = [])"
    by (simp add: findAllCurves_def findAllCurves_loop.simps grid_1x1_eval grid_defs curve_defs
          Let_def)
  then obtain cs g' where fa: "findAllCurves grid_1x1 = Some (cs, g')"
    and full: "\<forall>i \<in> fst ` set (gridLines g'). getUnusedDirections g' i = []" by blast
  have "reachable g'" by (rule reachable.allCurves [OF reachable_grid_1x1 fa])
  from findNextCurve_order [OF this] full have "findNextCurve g' = (None, g')" by blast
  with fa first keys u l show ?thesis by simp
qed

end
